theory Spec2Isabelle
  imports Complex_Main "HOL-Library.Word"
begin

unbundle bit_operations_syntax

section \<open>PC-80B parser: decoder and artifact scanner of \<open>parse_pc80b_v5.py\<close>\<close>

text \<open>
  The development embeds lines 36 to 79 of \<open>process_file\<close>: the decoding of the file
  contents into little-endian 16-bit samples and the scan/mask loop. The file contents are
  the parameter \<open>data\<close> (the result of \<open>read_file_bytes\<close>); the CSV and PNG output that
  follows the loop only reads the two values computed here, the sample array and the list
  \<open>zeroed_regions\<close>.
\<close>

subsection \<open>Python slices\<close>

text \<open>
  The adjustment Python and numpy apply to a slice bound (step 1): a negative bound counts
  from the end, and the result is clipped to \<open>0 .. len\<close>.
\<close>

definition norm_index :: "int \<Rightarrow> nat \<Rightarrow> nat" where
  "norm_index i len = (if i < 0 then nat (max (i + int len) 0) else min (nat i) len)"

text \<open>\<open>xs[i:j]\<close>, \<open>xs[i:]\<close> and \<open>xs[:j]\<close>.\<close>

definition py_slice :: "'a list \<Rightarrow> int \<Rightarrow> int \<Rightarrow> 'a list" where
  "py_slice xs i j =
     (let a = norm_index i (length xs); b = norm_index j (length xs)
      in take (b - a) (drop a xs))"

definition py_slice_from :: "'a list \<Rightarrow> int \<Rightarrow> 'a list" where
  "py_slice_from xs i = drop (norm_index i (length xs)) xs"

definition py_slice_to :: "'a list \<Rightarrow> int \<Rightarrow> 'a list" where
  "py_slice_to xs j = take (norm_index j (length xs)) xs"

text \<open>The slice assignment \<open>xs[i:j] = v\<close> of a scalar to a numpy array.\<close>

definition py_slice_fill :: "'a list \<Rightarrow> int \<Rightarrow> int \<Rightarrow> 'a \<Rightarrow> 'a list" where
  "py_slice_fill xs i j v =
     (let a = norm_index i (length xs); b = norm_index j (length xs)
      in map (\<lambda>k. if a \<le> k \<and> k < b then v else xs ! k) [0..<length xs])"

subsection \<open>The binary64 products \<open>0.7 * min_signal\<close> and \<open>1.3 * max_signal\<close>\<close>

text \<open>
  \<open>F64 m e\<close> is the non-negative binary64 value \<open>m / 2 ^ e\<close>. The literal \<open>0.7\<close> is the
  double \<open>0x1.6666666666666p-1\<close> and \<open>1.3\<close> is \<open>0x1.4cccccccccccdp+0\<close>.
\<close>

datatype f64 = F64 nat nat

definition f64_0_7 :: f64 where
  "f64_0_7 = F64 6305039478318694 53"

definition f64_1_3 :: f64 where
  "f64_1_3 = F64 5854679515581645 52"

fun bit_length :: "nat \<Rightarrow> nat" where
  "bit_length n = (if n = 0 then 0 else Suc (bit_length (n div 2)))"

declare bit_length.simps [simp del]

text \<open>
  Rounding of a natural number to a 53-bit significand, to nearest, ties to even: the
  rounding of every binary64 operation.
\<close>

definition round53 :: "nat \<Rightarrow> nat" where
  "round53 p =
     (if bit_length p \<le> 53 then p
      else let s = bit_length p - 53; q = p div 2 ^ s; r = p mod 2 ^ s; h = 2 ^ (s - 1)
           in (if h < r \<or> (r = h \<and> odd q) then q + 1 else q) * 2 ^ s)"

text \<open>
  The product of a double with an unsigned 16-bit integer (which converts to binary64
  exactly), the comparisons of an integer with a double, and \<open>int(x)\<close>.
\<close>

fun f64_mul_nat :: "f64 \<Rightarrow> nat \<Rightarrow> f64" where
  "f64_mul_nat (F64 m e) k = F64 (round53 (m * k)) e"

fun nat_less_f64 :: "nat \<Rightarrow> f64 \<Rightarrow> bool" where
  "nat_less_f64 a (F64 m e) = (a * 2 ^ e < m)"

fun f64_less_nat :: "f64 \<Rightarrow> nat \<Rightarrow> bool" where
  "f64_less_nat (F64 m e) a = (m < a * 2 ^ e)"

fun f64_trunc :: "f64 \<Rightarrow> int" where
  "f64_trunc (F64 m e) = int (m div 2 ^ e)"

fun f64_val :: "f64 \<Rightarrow> real" where
  "f64_val (F64 m e) = real m / 2 ^ e"

subsection \<open>Samples and the decoder\<close>

text \<open>
  The exceptions of Python and numpy that lines 36 to 79 can raise: \<open>ValueError\<close>
  (\<open>np.frombuffer\<close> on a buffer of odd size, \<open>np.min\<close> of an empty array) and
  \<open>OverflowError\<close> (a Python int that does not fit the \<open>np.int64\<close> it is added to).
\<close>

datatype error = ValueError | OverflowError

type_synonym sample = "16 word"

text \<open>A masked region as the source appends it: \<open>(first_outlier, end_idx, replacement_value)\<close>.\<close>

type_synonym region = "int \<times> int \<times> int"

definition amplitude :: "sample \<Rightarrow> sample" where
  "amplitude s = s AND 0x0FFF"

definition quality :: "sample \<Rightarrow> sample" where
  "quality s = drop_bit 12 s AND 0x000F"

text \<open>
  \<open>np.frombuffer(tail, dtype="<u2")\<close>: consecutive little-endian pairs; numpy raises
  \<open>ValueError\<close> when the buffer size is not a multiple of the element size.
\<close>

fun frombuffer_u2 :: "8 word list \<Rightarrow> error + sample list" where
  "frombuffer_u2 [] = Inr []"
| "frombuffer_u2 [b] = Inl ValueError"
| "frombuffer_u2 (lo # hi # bs) =
     (case frombuffer_u2 bs of
        Inl e \<Rightarrow> Inl e
      | Inr ws \<Rightarrow> Inr (word_of_nat (unat lo + 256 * unat hi) # ws))"

text \<open>Lines 41 to 47.\<close>

definition decode :: "8 word list \<Rightarrow> int \<Rightarrow> error + sample list" where
  "decode data header_size =
     (let tail = py_slice_from data header_size;
          tail = (if length tail mod 2 \<noteq> 0 then py_slice_to tail (- 1) else tail)
      in frombuffer_u2 tail)"

subsection \<open>Outlier test and replacement value\<close>

text \<open>The element test of \<open>np.where\<close> on line 63, on a 12-bit amplitude.\<close>

definition is_outlier :: "f64 \<Rightarrow> f64 \<Rightarrow> sample \<Rightarrow> bool" where
  "is_outlier low_thresh high_thresh a =
     (nat_less_f64 (unat a) low_thresh \<or> f64_less_nat high_thresh (unat a))"

definition replacement_of :: "sample \<Rightarrow> int" where
  "replacement_of min_signal = f64_trunc (f64_mul_nat f64_0_7 (unat min_signal)) AND 0x0FFF"

subsection \<open>Index arithmetic\<close>

text \<open>
  \<open>np.where\<close> returns indices of type \<open>np.int64\<close>, so \<open>first_outlier\<close> (line 68) is an
  \<open>np.int64\<close>, and so are \<open>end_idx\<close> and \<open>idx\<close> whenever \<open>min\<close> on line 73 returns its
  first argument. With numpy 2 the sum of an \<open>np.int64\<close> and a Python int is taken in
  \<open>int64\<close>: \<open>OverflowError\<close> is raised when the Python int does not fit \<open>int64\<close>, and
  otherwise the sum wraps around modulo \<open>2 ^ 64\<close> (numpy only warns). An array of 16-bit
  samples has fewer than \<open>2 ^ 62\<close> elements, so its length and its indices fit \<open>int64\<close>.
\<close>

definition fits_int64 :: "int \<Rightarrow> bool" where
  "fits_int64 x \<longleftrightarrow> - (2 ^ 63) \<le> x \<and> x < 2 ^ 63"

definition wrap_int64 :: "int \<Rightarrow> int" where
  "wrap_int64 x = (x + 2 ^ 63) mod 2 ^ 64 - 2 ^ 63"

text \<open>\<open>a + b\<close> for an \<open>np.int64\<close> \<open>a\<close> and a Python int \<open>b\<close>.\<close>

definition np_add :: "int \<Rightarrow> int \<Rightarrow> error + int" where
  "np_add a b = (if fits_int64 b then Inr (wrap_int64 (a + b)) else Inl OverflowError)"

text \<open>
  \<open>idx + n_per_20s\<close> on lines 53, 55, 63 and 68. \<open>idx\<close> is a Python int (\<open>0\<close> at the
  start, \<open>len(samples)\<close> when \<open>min\<close> on line 73 returns its second argument), for which
  the sum is exact, or an \<open>np.int64\<close>, for which the sum is taken in \<open>int64\<close>. \<open>idx\<close> is
  only assigned by an iteration that has passed the test of line 53 and found the window
  \<open>samples[idx:idx+n_per_20s]\<close> non-empty, and the first such iteration (at \<open>idx = 0\<close>)
  needs \<open>n_per_20s\<close> smaller in absolute value than \<open>len(samples)\<close>. So \<open>n_per_20s\<close>
  fits \<open>int64\<close> whenever \<open>idx\<close> is an \<open>np.int64\<close>; and when it fits, the exact sum for
  the Python ints \<open>0\<close> and \<open>len(samples)\<close> fits too and is the \<open>int64\<close> sum.
\<close>

definition cursor_plus :: "int \<Rightarrow> int \<Rightarrow> int" where
  "cursor_plus idx n_per_20s =
     (if fits_int64 n_per_20s then wrap_int64 (idx + n_per_20s) else idx + n_per_20s)"

subsection \<open>The loop body and the loop\<close>

text \<open>
  One pass through the loop body (lines 54 to 79) once the loop condition holds. The
  result is \<open>Inl ValueError\<close> when \<open>np.min\<close> is applied to an empty window,
  \<open>Inr None\<close> for \<open>break\<close>, \<open>Inl OverflowError\<close> when a Python int does not fit the
  \<open>int64\<close> sum of line 68 or line 73, and otherwise the array after the slice assignment
  together with the appended region (whose second component is the next \<open>idx\<close>).
\<close>

definition scan_body :: "int \<Rightarrow> int \<Rightarrow> int \<Rightarrow> int \<Rightarrow> sample list
    \<Rightarrow> error + (sample list \<times> region) option" where
  "scan_body header_size trailer_size n_per_20s idx samples =
     (let window = map amplitude (py_slice samples idx (cursor_plus idx n_per_20s))
      in if window = [] then Inl ValueError
         else
           let min_signal = Min (set window);
               max_signal = Max (set window);
               low_thresh = f64_mul_nat f64_0_7 (unat min_signal);
               high_thresh = f64_mul_nat f64_1_3 (unat max_signal);
               rest = map amplitude (py_slice_from samples (cursor_plus idx n_per_20s));
               outliers = filter (\<lambda>k. is_outlier low_thresh high_thresh (rest ! k))
                            [0..<length rest]
           in if outliers = [] then Inr None
              else
                (case np_add (int (hd outliers)) (cursor_plus idx n_per_20s) of
                   Inl e \<Rightarrow> Inl e
                 | Inr first_outlier \<Rightarrow>
                     let region_bytes = header_size + trailer_size;
                         region_samples = region_bytes div 2
                     in (case np_add first_outlier region_samples of
                           Inl e \<Rightarrow> Inl e
                         | Inr s \<Rightarrow>
                             let end_idx = min s (int (length samples));
                                 replacement_value = replacement_of min_signal
                             in Inr (Some (py_slice_fill samples first_outlier end_idx
                                             (word_of_int replacement_value),
                                           (first_outlier, end_idx, replacement_value))))))"

text \<open>
  The \<open>while\<close> loop of line 53. The source can run forever for negative parameters, so
  the loop is a partial function: \<open>None\<close> is non-termination, \<open>Some (Inl e)\<close> a raised
  exception, and \<open>Some (Inr (samples, zeroed_regions))\<close> the state at loop exit.
\<close>

partial_function (option) scan_loop :: "int \<Rightarrow> int \<Rightarrow> int \<Rightarrow> int \<Rightarrow> sample list
    \<Rightarrow> region list \<Rightarrow> (error + sample list \<times> region list) option" where
  "scan_loop header_size trailer_size n_per_20s idx samples zeroed_regions =
     (if cursor_plus idx n_per_20s < int (length samples) then
        (case scan_body header_size trailer_size n_per_20s idx samples of
           Inl e \<Rightarrow> Some (Inl e)
         | Inr None \<Rightarrow> Some (Inr (samples, zeroed_regions))
         | Inr (Some (samples', reg)) \<Rightarrow>
             scan_loop header_size trailer_size n_per_20s (fst (snd reg)) samples'
               (zeroed_regions @ [reg]))
      else Some (Inr (samples, zeroed_regions)))"

text \<open>Lines 49 to 79: the scanner on a decoded sample array.\<close>

definition scanner :: "sample list \<Rightarrow> int \<Rightarrow> int \<Rightarrow> int
    \<Rightarrow> (error + sample list \<times> region list) option" where
  "scanner samples header_size trailer_size sample_rate =
     scan_loop header_size trailer_size (sample_rate * 20) 0 samples []"

text \<open>Lines 36 to 79: decoding followed by the scanner.\<close>

definition process_file :: "8 word list \<Rightarrow> int \<Rightarrow> int \<Rightarrow> int
    \<Rightarrow> (error + sample list \<times> region list) option" where
  "process_file data header_size trailer_size sample_rate =
     (case decode data header_size of
        Inl e \<Rightarrow> Some (Inl e)
      | Inr samples \<Rightarrow> scanner samples header_size trailer_size sample_rate)"

subsection \<open>Notions used to state the properties\<close>

text \<open>
  The amplitudes of the baseline window \<open>samples[idx:idx+n_per_20s] & 0x0FFF\<close>, and the
  outlier test of sample \<open>k\<close> against the thresholds of that window.
\<close>

definition baseline_window :: "sample list \<Rightarrow> int \<Rightarrow> int \<Rightarrow> sample list" where
  "baseline_window samples idx n_per_20s = map amplitude (py_slice samples idx (idx + n_per_20s))"

definition outlier_at :: "sample list \<Rightarrow> int \<Rightarrow> int \<Rightarrow> nat \<Rightarrow> bool" where
  "outlier_at samples idx n_per_20s k =
     is_outlier (f64_mul_nat f64_0_7 (unat (Min (set (baseline_window samples idx n_per_20s)))))
       (f64_mul_nat f64_1_3 (unat (Max (set (baseline_window samples idx n_per_20s)))))
       (amplitude (samples ! k))"

text \<open>
  The start of the baseline window of the iteration that produced region \<open>j\<close>: the loop
  starts at \<open>idx = 0\<close> and continues at the \<open>end_idx\<close> of the region before.
\<close>

definition baseline_start :: "region list \<Rightarrow> nat \<Rightarrow> int" where
  "baseline_start regions j = (if j = 0 then 0 else fst (snd (regions ! (j - 1))))"

section \<open>Binary64 rounding\<close>

lemma bit_length_le: "n < 2 ^ k \<Longrightarrow> bit_length n \<le> k"
proof (induction k arbitrary: n)
  case 0
  then show ?case by (simp add: bit_length.simps)
next
  case (Suc k)
  show ?case
  proof (cases "n = 0")
    case True
    then show ?thesis by (simp add: bit_length.simps)
  next
    case False
    from Suc.prems have "n div 2 < 2 ^ k" by simp
    then have "bit_length (n div 2) \<le> k" by (rule Suc.IH)
    with False show ?thesis by (subst bit_length.simps) simp
  qed
qed

lemma round53_le:
  assumes "p < 2 ^ 65" and "2 ^ 12 dvd K" and "p \<le> K"
  shows "round53 p \<le> K"
proof (cases "bit_length p \<le> 53")
  case True
  with assms show ?thesis by (simp add: round53_def)
next
  case False
  define s where "s = bit_length p - 53"
  have s: "1 \<le> s" "s \<le> 12"
    using False bit_length_le [OF assms(1)] by (simp_all add: s_def)
  then have "(2::nat) ^ s dvd 2 ^ 12" by (intro le_imp_power_dvd)
  with assms(2) have "2 ^ s dvd K" by (metis dvd_trans)
  then obtain k where K: "K = 2 ^ s * k" ..
  define q where "q = p div 2 ^ s"
  define r where "r = p mod 2 ^ s"
  have p: "p = q * 2 ^ s + r" by (simp only: q_def r_def div_mult_mod_eq)
  have rlt: "r < 2 ^ s" by (simp add: r_def)
  have qk: "q \<le> k" using assms(3) unfolding K q_def
    by (metis div_le_mono nonzero_mult_div_cancel_left power_eq_0_iff zero_neq_numeral)
  have up: "(if 2 ^ (s - 1) < r \<or> (r = 2 ^ (s - 1) \<and> odd q) then q + 1 else q) \<le> k"
  proof (cases "q < k")
    case True
    then show ?thesis by simp
  next
    case False
    with qk have "q = k" by simp
    with assms(3) K p have "r = 0" by simp
    with \<open>q = k\<close> show ?thesis by simp
  qed
  have "round53 p = (if 2 ^ (s - 1) < r \<or> (r = 2 ^ (s - 1) \<and> odd q) then q + 1 else q) * 2 ^ s"
    using False by (simp add: round53_def Let_def s_def q_def r_def)
  also have "\<dots> \<le> k * 2 ^ s" using up by (rule mult_le_mono1)
  finally show ?thesis by (simp add: K mult.commute)
qed

lemma round53_ge:
  assumes "p < 2 ^ 65" and "2 ^ 12 dvd K" and "K \<le> p"
  shows "K \<le> round53 p"
proof (cases "bit_length p \<le> 53")
  case True
  with assms show ?thesis by (simp add: round53_def)
next
  case False
  define s where "s = bit_length p - 53"
  have s: "1 \<le> s" "s \<le> 12"
    using False bit_length_le [OF assms(1)] by (simp_all add: s_def)
  then have "(2::nat) ^ s dvd 2 ^ 12" by (intro le_imp_power_dvd)
  with assms(2) have "2 ^ s dvd K" by (metis dvd_trans)
  then obtain k where K: "K = 2 ^ s * k" ..
  define q where "q = p div 2 ^ s"
  define r where "r = p mod 2 ^ s"
  have qk: "k \<le> q" using assms(3) unfolding K q_def
    by (metis div_le_mono nonzero_mult_div_cancel_left power_eq_0_iff zero_neq_numeral)
  have "round53 p = (if 2 ^ (s - 1) < r \<or> (r = 2 ^ (s - 1) \<and> odd q) then q + 1 else q) * 2 ^ s"
    using False by (simp add: round53_def Let_def s_def q_def r_def)
  moreover have "k * 2 ^ s \<le> (if 2 ^ (s - 1) < r \<or> (r = 2 ^ (s - 1) \<and> odd q) then q + 1 else q) * 2 ^ s"
    using qk by (intro mult_le_mono1) simp
  ultimately show ?thesis by (simp add: K mult.commute)
qed

lemma dvd_scaled53: "2 ^ 12 dvd a * (9007199254740992::nat)"
  by (rule dvdI [where k = "a * 2199023255552"]) simp

lemma dvd_scaled52: "2 ^ 12 dvd a * (4503599627370496::nat)"
  by (rule dvdI [where k = "a * 1099511627776"]) simp

lemma low_thresh_exact:
  assumes "m < 4096"
  shows "nat_less_f64 a (f64_mul_nat f64_0_7 m) \<longleftrightarrow> 10 * a < 7 * m"
proof -
  define p where "p = 6305039478318694 * m"
  have p65: "p < 2 ^ 65" using assms by (simp add: p_def)
  have p10: "10 * p + 4 * m = 7 * m * 9007199254740992" by (simp add: p_def)
  have eq: "nat_less_f64 a (f64_mul_nat f64_0_7 m) \<longleftrightarrow> a * 9007199254740992 < round53 p"
    by (simp add: f64_0_7_def p_def)
  show ?thesis
  proof (cases "10 * a < 7 * m")
    case True
    have "2 ^ 12 dvd a * 9007199254740992 + (4096::nat)"
      by (rule dvd_add [OF dvd_scaled53]) simp
    moreover have "a * 9007199254740992 + 4096 \<le> p"
      using True p10 assms by linarith
    ultimately have "a * 9007199254740992 + 4096 \<le> round53 p"
      using p65 by (intro round53_ge)
    with True eq show ?thesis by simp
  next
    case False
    have "2 ^ 12 dvd a * (9007199254740992::nat)"
      by (rule dvd_scaled53)
    moreover have "p \<le> a * 9007199254740992"
      using False p10 by linarith
    ultimately have "round53 p \<le> a * 9007199254740992"
      using p65 by (intro round53_le)
    with False eq show ?thesis by simp
  qed
qed

lemma high_thresh_exact:
  assumes "m < 4096"
  shows "f64_less_nat (f64_mul_nat f64_1_3 m) a \<longleftrightarrow> 13 * m < 10 * a"
proof -
  define p where "p = 5854679515581645 * m"
  have p65: "p < 2 ^ 65" using assms by (simp add: p_def)
  have p10: "10 * p = 13 * m * 4503599627370496 + 2 * m" by (simp add: p_def)
  have eq: "f64_less_nat (f64_mul_nat f64_1_3 m) a \<longleftrightarrow> round53 p < a * 4503599627370496"
    by (simp add: f64_1_3_def p_def)
  show ?thesis
  proof (cases "13 * m < 10 * a")
    case True
    then obtain b where a: "a = Suc b" by (cases a) simp_all
    have "2 ^ 12 dvd b * 4503599627370496 + (4503599627370496 - 4096::nat)"
      by (rule dvd_add [OF dvd_scaled52], rule dvdI [where k = 1099511627775]) simp
    moreover have "p \<le> b * 4503599627370496 + (4503599627370496 - 4096)"
      using True p10 assms a by simp
    ultimately have "round53 p \<le> b * 4503599627370496 + (4503599627370496 - 4096)"
      using p65 by (intro round53_le)
    with True eq a show ?thesis by simp
  next
    case False
    have "2 ^ 12 dvd a * (4503599627370496::nat)"
      by (rule dvd_scaled52)
    moreover have "a * 4503599627370496 \<le> p"
      using False p10 by linarith
    ultimately have "a * 4503599627370496 \<le> round53 p"
      using p65 by (intro round53_ge)
    with False eq show ?thesis by simp
  qed
qed

text \<open>
  The two literals are the doubles nearest to \<open>0.7\<close> and \<open>1.3\<close>: each has a 53-bit
  significand and differs from the decimal by less than half a unit in the last place.
\<close>

lemma f64_0_7_nearest:
  "2 ^ 52 \<le> (6305039478318694::nat) \<and> (6305039478318694::nat) < 2 ^ 53
     \<and> \<bar>f64_val f64_0_7 - 7 / 10\<bar> < 1 / 2 ^ 54"
  by (simp add: f64_0_7_def abs_if)

lemma f64_1_3_nearest:
  "2 ^ 52 \<le> (5854679515581645::nat) \<and> (5854679515581645::nat) < 2 ^ 53
     \<and> \<bar>f64_val f64_1_3 - 13 / 10\<bar> < 1 / 2 ^ 53"
  by (simp add: f64_1_3_def abs_if)

lemma nat_less_f64_val: "nat_less_f64 a x \<longleftrightarrow> real a < f64_val x"
proof (cases x)
  case (F64 m e)
  have "real a < real m / 2 ^ e \<longleftrightarrow> real (a * 2 ^ e) < real m"
    by (simp add: pos_less_divide_eq)
  then show ?thesis unfolding F64 by (simp only: nat_less_f64.simps f64_val.simps of_nat_less_iff)
qed

lemma f64_less_nat_val: "f64_less_nat x a \<longleftrightarrow> f64_val x < real a"
proof (cases x)
  case (F64 m e)
  have "real m / 2 ^ e < real a \<longleftrightarrow> real m < real (a * 2 ^ e)"
    by (simp add: pos_divide_less_eq)
  then show ?thesis unfolding F64 by (simp only: f64_less_nat.simps f64_val.simps of_nat_less_iff)
qed

lemma f64_trunc_val: "f64_trunc x = \<lfloor>f64_val x\<rfloor>"
proof (cases x)
  case (F64 m e)
  have "\<lfloor>real m / real (2 ^ e)\<rfloor> = int (m div 2 ^ e)"
    by (simp only: floor_divide_of_nat_eq)
  then show ?thesis unfolding F64 by simp
qed

text \<open>
  \<open>int(0.7 * m)\<close> against the exact \<open>floor(7 m / 10)\<close>: equal unless \<open>m\<close> is a multiple
  of 10, and then at most one less (the product of the double \<open>0.7\<close> can round to just
  below the integer \<open>7 m / 10\<close>).
\<close>

lemma trunc_0_7_bounds:
  assumes "m < 4096"
  shows "f64_trunc (f64_mul_nat f64_0_7 m) \<le> int (7 * m div 10)"
    and "int (7 * m div 10) - 1 \<le> f64_trunc (f64_mul_nat f64_0_7 m)"
    and "\<not> 10 dvd m \<Longrightarrow> f64_trunc (f64_mul_nat f64_0_7 m) = int (7 * m div 10)"
proof -
  define p where "p = 6305039478318694 * m"
  define k where "k = 7 * m div 10"
  define r where "r = 7 * m mod 10"
  have km: "7 * m = 10 * k + r" "r < 10" by (simp_all add: k_def r_def)
  have p65: "p < 2 ^ 65" using assms by (simp add: p_def)
  have p10: "10 * p + 4 * m = 7 * m * 9007199254740992" by (simp add: p_def)
  have tr: "f64_trunc (f64_mul_nat f64_0_7 m) = int (round53 p div 9007199254740992)"
    by (simp add: f64_0_7_def p_def)
  have "2 ^ 12 dvd k * 9007199254740992 + (9007199254740992 - 4096::nat)"
    by (rule dvd_add [OF dvd_scaled53], rule dvdI [where k = 2199023255551]) simp
  moreover have "p \<le> k * 9007199254740992 + (9007199254740992 - 4096)"
    using p10 km by linarith
  ultimately have "round53 p \<le> k * 9007199254740992 + (9007199254740992 - 4096)"
    using p65 by (intro round53_le)
  then have "round53 p < (k + 1) * 9007199254740992" by simp
  then have up: "round53 p div 9007199254740992 \<le> k"
    by (simp add: less_mult_imp_div_less)
  show "f64_trunc (f64_mul_nat f64_0_7 m) \<le> int (7 * m div 10)"
    unfolding tr k_def [symmetric] using up by simp
  show "int (7 * m div 10) - 1 \<le> f64_trunc (f64_mul_nat f64_0_7 m)"
  proof (cases k)
    case 0
    then show ?thesis unfolding tr k_def [symmetric] by simp
  next
    case (Suc j)
    have "2 ^ 12 dvd j * 9007199254740992 + (9007199254740992 - 4096::nat)"
      by (rule dvd_add [OF dvd_scaled53], rule dvdI [where k = 2199023255551]) simp
    moreover have "j * 9007199254740992 + (9007199254740992 - 4096) \<le> p"
      using p10 km Suc assms by linarith
    ultimately have "j * 9007199254740992 + (9007199254740992 - 4096) \<le> round53 p"
      using p65 by (intro round53_ge)
    then have "j * 9007199254740992 \<le> round53 p" by simp
    then have "j \<le> round53 p div 9007199254740992"
      by (simp add: less_eq_div_iff_mult_less_eq)
    then show ?thesis unfolding tr k_def [symmetric] Suc by simp
  qed
  show "f64_trunc (f64_mul_nat f64_0_7 m) = int (7 * m div 10)" if "\<not> 10 dvd m"
  proof -
    have "\<not> 10 dvd 7 * m" using that by presburger
    then have "1 \<le> r" unfolding r_def by (simp add: dvd_eq_mod_eq_0)
    have "2 ^ 12 dvd k * (9007199254740992::nat)" by (rule dvd_scaled53)
    moreover have "k * 9007199254740992 \<le> p"
      using p10 km \<open>1 \<le> r\<close> assms by linarith
    ultimately have "k * 9007199254740992 \<le> round53 p"
      using p65 by (intro round53_ge)
    then have "k \<le> round53 p div 9007199254740992"
      by (simp add: less_eq_div_iff_mult_less_eq)
    with up show ?thesis unfolding tr k_def [symmetric] by simp
  qed
qed

section \<open>Samples\<close>

lemma unat_amplitude_lt: "unat (amplitude s) < 4096"
proof -
  have "unat (s AND 0x0FFF) \<le> unat (0x0FFF :: sample)"
    by (rule word_and_le1 [THEN word_le_nat_alt [THEN iffD1]])
  then show ?thesis by (simp add: amplitude_def)
qed

lemma replacement_of_range: "0 \<le> replacement_of m \<and> replacement_of m < 4096"
proof -
  have "replacement_of m \<le> 0x0FFF"
    unfolding replacement_of_def by (rule AND_upper2) simp
  moreover have "0 \<le> replacement_of m"
    unfolding replacement_of_def by simp
  ultimately show ?thesis by simp
qed

lemma masked_sample_fields:
  assumes "0 \<le> r" and "r < 4096"
  shows "uint (amplitude (word_of_int r)) = r" and "quality (word_of_int r) = 0"
proof -
  have u: "uint (word_of_int r :: sample) = r"
    using assms by (simp add: uint_word_of_int take_bit_int_eq_self)
  have "(word_of_int r :: sample) < 2 ^ 12"
    using assms u by (simp add: word_less_def)
  then have a: "(word_of_int r :: sample) AND mask 12 = word_of_int r"
    by (rule less_mask_eq)
  have m: "(0x0FFF :: sample) = mask 12" by (simp add: mask_eq_exp_minus_1)
  show "uint (amplitude (word_of_int r)) = r"
    using a u by (simp add: amplitude_def m)
  have "drop_bit 12 (word_of_int r :: sample) = 0"
    using \<open>(word_of_int r :: sample) < 2 ^ 12\<close> by (simp add: drop_bit_eq_zero_iff_not_bit_last  word_less_def uint_word_of_int drop_bit_eq_div word_eq_iff_unsigned [where ?'a = int] uint_div_distrib)
  then show "quality (word_of_int r) = 0" by (simp add: quality_def)
qed

lemma replacement_of_exact:
  assumes "unat m < 4096"
  shows "replacement_of m \<le> int (7 * unat m div 10)"
    and "int (7 * unat m div 10) - 1 \<le> replacement_of m"
    and "\<not> 10 dvd unat m \<Longrightarrow> replacement_of m = int (7 * unat m div 10)"
proof -
  let ?t = "f64_trunc (f64_mul_nat f64_0_7 (unat m))"
  have "?t \<le> int (7 * unat m div 10)" by (rule trunc_0_7_bounds(1) [OF assms])
  moreover have "7 * unat m div 10 < 4096" using assms by linarith
  ultimately have hi: "?t < 2 ^ 12" by simp
  have lo: "0 \<le> ?t" by (cases "f64_mul_nat f64_0_7 (unat m)") simp
  have "take_bit 12 ?t = ?t" using lo hi by (simp add: take_bit_int_eq_self)
  then have "?t AND mask 12 = ?t" by (simp add: take_bit_eq_mask)
  moreover have "(0x0FFF :: int) = mask 12" by (simp add: mask_eq_exp_minus_1)
  ultimately have eq: "replacement_of m = ?t" by (simp add: replacement_of_def)
  show "replacement_of m \<le> int (7 * unat m div 10)"
    unfolding eq by (rule trunc_0_7_bounds(1) [OF assms])
  show "int (7 * unat m div 10) - 1 \<le> replacement_of m"
    unfolding eq by (rule trunc_0_7_bounds(2) [OF assms])
  show "replacement_of m = int (7 * unat m div 10)" if "\<not> 10 dvd unat m"
    unfolding eq using that by (rule trunc_0_7_bounds(3) [OF assms])
qed

lemma replacement_of_90: "replacement_of 90 = 62"
  by (simp add: replacement_of_def f64_0_7_def round53_def bit_length.simps Let_def)

section \<open>Slices and the baseline window\<close>

lemma norm_index_nat: "0 \<le> i \<Longrightarrow> i \<le> int len \<Longrightarrow> norm_index i len = nat i"
  by (simp add: norm_index_def)

lemma length_py_slice_fill [simp]: "length (py_slice_fill xs i j v) = length xs"
  by (simp add: py_slice_fill_def Let_def)

lemma nth_py_slice_fill:
  assumes "0 \<le> j" and "j \<le> int (length xs)" and "k < length xs"
  shows "py_slice_fill xs (int a) j v ! k = (if a \<le> k \<and> int k < j then v else xs ! k)"
proof -
  have b: "norm_index j (length xs) = nat j" using assms by (simp add: norm_index_nat)
  have a: "norm_index (int a) (length xs) = min a (length xs)"
    by (simp add: norm_index_def)
  have "py_slice_fill xs (int a) j v ! k
          = (if min a (length xs) \<le> k \<and> k < nat j then v else xs ! k)"
    using assms(3) by (simp add: py_slice_fill_def Let_def a b)
  moreover have "min a (length xs) \<le> k \<longleftrightarrow> a \<le> k" using assms(3) by linarith
  moreover have "k < nat j \<longleftrightarrow> int k < j" using assms(1) by linarith
  ultimately show ?thesis by simp
qed

lemma baseline_window_eq:
  assumes "0 \<le> idx" and "0 \<le> n" and "idx + n \<le> int (length samples)"
  shows "baseline_window samples idx n = map amplitude (take (nat n) (drop (nat idx) samples))"
proof -
  have "norm_index idx (length samples) = nat idx"
    and "norm_index (idx + n) (length samples) = nat (idx + n)"
    using assms by (simp_all add: norm_index_nat)
  moreover have "nat (idx + n) - nat idx = nat n" using assms by simp
  ultimately show ?thesis by (simp add: baseline_window_def py_slice_def Let_def)
qed

lemma set_baseline_window:
  assumes "0 \<le> idx" and "0 \<le> n" and "idx + n \<le> int (length samples)"
  shows "set (baseline_window samples idx n) =
           (\<lambda>k. amplitude (samples ! k)) ` {nat idx ..< nat (idx + n)}"
proof -
  have len: "nat (idx + n) - nat idx = nat n" "nat idx + nat n \<le> length samples"
    using assms by simp_all
  have l: "length (take (nat n) (drop (nat idx) samples)) = nat (idx + n) - nat idx"
    using len by simp
  have "map ((!) samples) [nat idx ..< nat (idx + n)] = take (nat n) (drop (nat idx) samples)"
  proof (rule map_upt_eqI [OF l])
    fix i assume "i < length (take (nat n) (drop (nat idx) samples))"
    then show "take (nat n) (drop (nat idx) samples) ! i = samples ! (nat idx + i)"
      using len by simp
  qed
  then have "set (take (nat n) (drop (nat idx) samples)) = (!) samples ` {nat idx ..< nat (idx + n)}"
    by (metis set_map set_upt)
  then show ?thesis
    using assms by (simp add: baseline_window_eq image_image)
qed

lemma baseline_window_cong:
  assumes "0 \<le> idx" and "0 \<le> n" and "idx + n \<le> int (length s)" and "length s' = length s"
    and "\<And>k. nat idx \<le> k \<Longrightarrow> k < nat (idx + n) \<Longrightarrow> s' ! k = s ! k"
  shows "set (baseline_window s' idx n) = set (baseline_window s idx n)"
proof -
  have "(\<lambda>k. amplitude (s' ! k)) ` {nat idx ..< nat (idx + n)}
      = (\<lambda>k. amplitude (s ! k)) ` {nat idx ..< nat (idx + n)}"
    by (rule image_cong) (simp_all add: assms(5))
  then show ?thesis
    using assms by (simp add: set_baseline_window)
qed

lemma filter_upt_Suc: "filter P [0..<Suc m] = filter P [0..<m] @ (if P m then [m] else [])"
  by (simp only: upt_Suc_append [OF le0] filter_append filter.simps)

lemma hd_filter_upt:
  assumes "filter P [0..<m] \<noteq> []"
  shows "hd (filter P [0..<m]) < m \<and> P (hd (filter P [0..<m]))
           \<and> (\<forall>j < hd (filter P [0..<m]). \<not> P j)"
  using assms
proof (induction m)
  case 0
  then show ?case by simp
next
  case (Suc m)
  show ?case
  proof (cases "filter P [0..<m] = []")
    case True
    have "P m"
    proof (rule ccontr)
      assume "\<not> P m"
      then have "filter P [0..<Suc m] = []" unfolding filter_upt_Suc True by simp
      with Suc.prems show False by blast
    qed
    then have h: "hd (filter P [0..<Suc m]) = m" unfolding filter_upt_Suc True by simp
    from True have "\<forall>j<m. \<not> P j" by (simp add: filter_empty_conv)
    with \<open>P m\<close> show ?thesis unfolding h by blast
  next
    case False
    then have h: "hd (filter P [0..<Suc m]) = hd (filter P [0..<m])"
      unfolding filter_upt_Suc by simp
    from Suc.IH [OF False] show ?thesis unfolding h by (blast intro: less_SucI)
  qed
qed

section \<open>Index arithmetic in int64\<close>

lemma wrap_int64_id: "fits_int64 x \<Longrightarrow> wrap_int64 x = x"
  by (simp add: fits_int64_def wrap_int64_def)

lemma wrap_int64_over:
  assumes "2 ^ 63 \<le> x" and "x < 2 ^ 63 + 2 ^ 64"
  shows "wrap_int64 x = x - 2 ^ 64"
proof -
  define y where "y = x - 2 ^ 63"
  have x: "x + 2 ^ 63 = y + 2 ^ 64" by (simp add: y_def)
  have y: "0 \<le> y" "y < 2 ^ 64" using assms by (simp_all add: y_def)
  have "(y + 2 ^ 64) mod 2 ^ 64 = y mod 2 ^ 64" by (simp only: mod_add_self2)
  also have "\<dots> = y" using y by simp
  finally have "(x + 2 ^ 63) mod 2 ^ 64 = y" unfolding x .
  then show ?thesis by (simp add: wrap_int64_def y_def)
qed

lemma cursor_plus_zero: "cursor_plus 0 n = n"
  by (simp add: cursor_plus_def wrap_int64_id)

lemma cursor_plus_small:
  assumes "0 \<le> idx" and "0 \<le> n" and "idx + n < 2 ^ 63"
  shows "cursor_plus idx n = idx + n"
  using assms by (simp add: cursor_plus_def fits_int64_def wrap_int64_def)

lemma np_add_small:
  assumes "0 \<le> a" and "0 \<le> b" and "a + b < 2 ^ 63"
  shows "np_add a b = Inr (a + b)"
  using assms by (simp add: np_add_def fits_int64_def wrap_int64_def)

section \<open>One iteration of the loop\<close>

lemma scan_body_cases:
  assumes n: "1 \<le> n" and idx: "0 \<le> idx" and len: "idx + n < int (length samples)"
    and L: "int (length samples) \<le> 2 ^ 63"
  shows "(scan_body h t n idx samples = Inr None
            \<and> (\<forall>k. nat (idx + n) \<le> k \<and> k < length samples \<longrightarrow> \<not> outlier_at samples idx n k))
       \<or> (\<exists>fo. nat (idx + n) \<le> fo \<and> fo < length samples \<and> outlier_at samples idx n fo
              \<and> (\<forall>k. nat (idx + n) \<le> k \<and> k < fo \<longrightarrow> \<not> outlier_at samples idx n k)
              \<and> scan_body h t n idx samples =
                  (case np_add (int fo) ((h + t) div 2) of
                     Inl e \<Rightarrow> Inl e
                   | Inr s \<Rightarrow>
                       Inr (Some (py_slice_fill samples (int fo) (min s (int (length samples)))
                                    (word_of_int (replacement_of (Min (set (baseline_window samples idx n))))),
                                  (int fo, min s (int (length samples)),
                                   replacement_of (Min (set (baseline_window samples idx n))))))))"
proof -
  let ?b = "nat (idx + n)"
  let ?W = "baseline_window samples idx n"
  define rest where "rest = map amplitude (py_slice_from samples (idx + n))"
  define Q where "Q k = outlier_at samples idx n (?b + k)" for k
  define outliers where "outliers =
    filter (\<lambda>k. is_outlier (f64_mul_nat f64_0_7 (unat (Min (set ?W))))
                  (f64_mul_nat f64_1_3 (unat (Max (set ?W)))) (rest ! k)) [0..<length rest]"
  have cp: "cursor_plus idx n = idx + n"
    using n idx len L by (intro cursor_plus_small) simp_all
  have "norm_index (idx + n) (length samples) = ?b"
    using n idx len by (simp add: norm_index_nat)
  then have rest_eq: "rest = map amplitude (drop ?b samples)"
    by (simp add: rest_def py_slice_from_def)
  have lrest: "length rest = length samples - ?b" by (simp add: rest_eq)
  have nth_rest: "rest ! k = amplitude (samples ! (?b + k))" if "k < length rest" for k
    using that by (simp add: rest_eq)
  have out_eq: "outliers = filter Q [0..<length rest]"
    unfolding outliers_def
    by (rule filter_cong [OF refl]) (simp add: Q_def outlier_at_def nth_rest)
  have "take (nat n) (drop (nat idx) samples) \<noteq> []"
    using n idx len by simp
  then have Wne: "?W \<noteq> []"
    using n idx len by (simp add: baseline_window_eq)
  have body: "scan_body h t n idx samples =
      (if outliers = [] then Inr None
       else (case np_add (int (hd outliers)) (idx + n) of
               Inl e \<Rightarrow> Inl e
             | Inr first_outlier \<Rightarrow>
                 (case np_add first_outlier ((h + t) div 2) of
                    Inl e \<Rightarrow> Inl e
                  | Inr s \<Rightarrow>
                      Inr (Some (py_slice_fill samples first_outlier (min s (int (length samples)))
                                   (word_of_int (replacement_of (Min (set ?W)))),
                                 (first_outlier, min s (int (length samples)),
                                  replacement_of (Min (set ?W))))))))"
    using Wne unfolding scan_body_def Let_def cp baseline_window_def outliers_def rest_def
    by (simp only: if_False)
  show ?thesis
  proof (cases "outliers = []")
    case True
    then have none: "\<forall>k<length rest. \<not> Q k"
      unfolding out_eq by (simp add: filter_empty_conv)
    have "\<not> outlier_at samples idx n k" if "?b \<le> k" "k < length samples" for k
    proof -
      from that have "k - ?b < length rest" "?b + (k - ?b) = k" by (simp_all add: lrest)
      with none show ?thesis unfolding Q_def by metis
    qed
    with True body show ?thesis by simp
  next
    case False
    define fo' where "fo' = hd outliers"
    from False have "filter Q [0..<length rest] \<noteq> []" by (simp add: out_eq)
    from hd_filter_upt [OF this]
    have fo': "fo' < length rest" "Q fo'" "\<forall>j<fo'. \<not> Q j"
      unfolding fo'_def out_eq by blast+
    have int_fo: "int (?b + fo') = idx + n + int fo'" using n idx by simp
    have 1: "?b \<le> ?b + fo'" by simp
    have 2: "?b + fo' < length samples" using fo'(1) by (simp add: lrest)
    have 3: "outlier_at samples idx n (?b + fo')" using fo'(2) by (simp add: Q_def)
    have 4: "\<not> outlier_at samples idx n k" if "?b \<le> k" "k < ?b + fo'" for k
    proof -
      from that have "k - ?b < fo'" "?b + (k - ?b) = k" by simp_all
      with fo'(3) show ?thesis unfolding Q_def by metis
    qed
    have "int fo' + (idx + n) < 2 ^ 63" using 2 L n idx by linarith
    then have "np_add (int fo') (idx + n) = Inr (int fo' + (idx + n))"
      using n idx by (intro np_add_small) simp_all
    moreover have "int fo' + (idx + n) = int (?b + fo')" using int_fo by linarith
    ultimately have fo_eq: "np_add (int fo') (idx + n) = Inr (int (?b + fo'))"
      by (simp only:)
    have 5: "scan_body h t n idx samples =
       (case np_add (int (?b + fo')) ((h + t) div 2) of
          Inl e \<Rightarrow> Inl e
        | Inr s \<Rightarrow>
            Inr (Some (py_slice_fill samples (int (?b + fo')) (min s (int (length samples)))
                         (word_of_int (replacement_of (Min (set ?W)))),
                       (int (?b + fo'), min s (int (length samples)),
                        replacement_of (Min (set ?W))))))"
      unfolding body fo'_def [symmetric] fo_eq using False by (simp only: if_False sum.case)
    from 1 2 3 4 5 show ?thesis by blast
  qed
qed

lemma scan_body_no_window:
  assumes "py_slice samples idx (cursor_plus idx n) = []"
  shows "scan_body h t n idx samples = Inl ValueError"
  using assms by (simp add: scan_body_def)

text \<open>
  After a wrap-around on line 73 the cursor is a negative number far below
  \<open>- len(samples)\<close>: the loop condition holds, the window is empty and \<open>np.min\<close> raises.
\<close>

lemma scan_loop_wrapped:
  assumes n: "1 \<le> n" "n < int (length s)" and len: "int (length s) < 2 ^ 61"
    and w: "- (2 ^ 63) \<le> w" "w \<le> - (2 ^ 62)"
  shows "scan_loop h t n w s regs = Some (Inl ValueError)"
proof -
  have "fits_int64 n" "fits_int64 (w + n)"
    using n len w by (simp_all add: fits_int64_def)
  then have cp: "cursor_plus w n = w + n"
    by (simp add: cursor_plus_def wrap_int64_id)
  have cond: "cursor_plus w n < int (length s)" unfolding cp using n len w by simp
  have "norm_index w (length s) = 0" "norm_index (w + n) (length s) = 0"
    using n len w by (simp_all add: norm_index_def)
  then have "py_slice s w (cursor_plus w n) = []"
    unfolding cp by (simp add: py_slice_def)
  then have "scan_body h t n w s = Inl ValueError" by (rule scan_body_no_window)
  with cond show ?thesis by (subst scan_loop.simps) simp
qed

section \<open>The loop: termination and invariants\<close>

text \<open>
  The loop rule. For \<open>n_per_20s \<ge> 1\<close>, \<open>header_size \<ge> 0\<close>, \<open>trailer_size \<ge> 0\<close> and an
  array of fewer than \<open>2 ^ 61\<close> samples the loop terminates: it returns, or it raises
  \<open>OverflowError\<close> on line 73, or the sum of line 73 wraps around and the next \<open>np.min\<close>
  raises \<open>ValueError\<close>. Whenever it returns, an invariant \<open>I\<close> of the iterations without
  wrap-around holds of the result; and it returns when \<open>header_size + trailer_size\<close> is
  below \<open>2 ^ 63\<close>.
\<close>

lemma scan_loop_rule:
  assumes n: "1 \<le> n" and h: "0 \<le> h" and t: "0 \<le> t"
    and idx: "0 \<le> idx" "idx \<le> int (length samples)" "idx = 0 \<or> n < int (length samples)"
    and len: "int (length samples) < 2 ^ 61"
    and init: "I idx samples regs"
    and step: "\<And>idx s regs fo. 0 \<le> idx \<Longrightarrow> idx + n < int (length s) \<Longrightarrow> I idx s regs
        \<Longrightarrow> nat (idx + n) \<le> fo \<Longrightarrow> fo < length s \<Longrightarrow> outlier_at s idx n fo
        \<Longrightarrow> (\<forall>k. nat (idx + n) \<le> k \<and> k < fo \<longrightarrow> \<not> outlier_at s idx n k)
        \<Longrightarrow> I (min (int fo + (h + t) div 2) (int (length s)))
              (py_slice_fill s (int fo) (min (int fo + (h + t) div 2) (int (length s)))
                 (word_of_int (replacement_of (Min (set (baseline_window s idx n))))))
              (regs @ [(int fo, min (int fo + (h + t) div 2) (int (length s)),
                        replacement_of (Min (set (baseline_window s idx n))))])"
  shows "\<exists>res. scan_loop h t n idx samples regs = Some res
           \<and> (\<forall>s' regs'. res = Inr (s', regs') \<longrightarrow>
                 (\<exists>idx'. I idx' s' regs' \<and> 0 \<le> idx'
                    \<and> (idx' + n < int (length s') \<longrightarrow>
                         (\<forall>k. nat (idx' + n) \<le> k \<and> k < length s'
                            \<longrightarrow> \<not> outlier_at s' idx' n k))))
           \<and> (h + t < 2 ^ 63 \<longrightarrow> (\<exists>s' regs'. res = Inr (s', regs')))"
  using idx len init
proof (induction "length samples - nat idx" arbitrary: idx samples regs rule: less_induct)
  case less
  note idx0 = less.prems(1) and idx1 = less.prems(2) and st = less.prems(3)
    and len = less.prems(4) and I0 = less.prems(5)
  have L: "int (length samples) \<le> 2 ^ 63" using len by simp
  have r: "0 \<le> (h + t) div 2" using h t by simp
  show ?case
  proof (cases "idx + n < int (length samples)")
    case False
    have "\<not> cursor_plus idx n < int (length samples)"
    proof (cases "idx = 0")
      case True
      with False show ?thesis by (simp add: cursor_plus_zero)
    next
      case nz: False
      with st have "n < int (length samples)" by simp
      with idx1 len have "idx + n < 2 ^ 63" by simp
      with idx0 n have "cursor_plus idx n = idx + n" by (intro cursor_plus_small) simp_all
      with False show ?thesis by simp
    qed
    then have "scan_loop h t n idx samples regs = Some (Inr (samples, regs))"
      by (subst scan_loop.simps) simp
    with idx0 I0 False show ?thesis by blast
  next
    case True
    have nl: "n < int (length samples)" using True idx0 by simp
    have "idx + n < 2 ^ 63" using True L by simp
    with idx0 n have cp: "cursor_plus idx n = idx + n" by (intro cursor_plus_small) simp_all
    have cond: "cursor_plus idx n < int (length samples)" unfolding cp by (rule True)
    from scan_body_cases [OF n idx0 True L, of h t]
    show ?thesis
    proof (elim disjE conjE exE)
      assume b: "scan_body h t n idx samples = Inr None"
        and no: "\<forall>k. nat (idx + n) \<le> k \<and> k < length samples \<longrightarrow> \<not> outlier_at samples idx n k"
      from b cond have "scan_loop h t n idx samples regs = Some (Inr (samples, regs))"
        by (subst scan_loop.simps) simp
      with idx0 I0 no show ?thesis by blast
    next
      fix fo
      let ?r = "(h + t) div 2"
      let ?rep = "replacement_of (Min (set (baseline_window samples idx n)))"
      assume fo: "nat (idx + n) \<le> fo" "fo < length samples" "outlier_at samples idx n fo"
        "\<forall>k. nat (idx + n) \<le> k \<and> k < fo \<longrightarrow> \<not> outlier_at samples idx n k"
        and b: "scan_body h t n idx samples =
                  (case np_add (int fo) ?r of
                     Inl e \<Rightarrow> Inl e
                   | Inr s \<Rightarrow>
                       Inr (Some (py_slice_fill samples (int fo) (min s (int (length samples)))
                                    (word_of_int ?rep),
                                  (int fo, min s (int (length samples)), ?rep))))"
      have fo61: "int fo < 2 ^ 61" using fo(2) len by simp
      show ?thesis
      proof (cases "?r < 2 ^ 63")
        case False
        with r have "np_add (int fo) ?r = Inl OverflowError"
          by (simp add: np_add_def fits_int64_def)
        with b cond have "scan_loop h t n idx samples regs = Some (Inl OverflowError)"
          by (subst scan_loop.simps) simp
        moreover have "\<not> h + t < 2 ^ 63" using False by simp
        ultimately show ?thesis by simp
      next
        case fits: True
        show ?thesis
        proof (cases "int fo + ?r < 2 ^ 63")
          case True
          let ?e = "min (int fo + ?r) (int (length samples))"
          let ?s = "py_slice_fill samples (int fo) ?e (word_of_int ?rep)"
          have "np_add (int fo) ?r = Inr (int fo + ?r)"
            using r True by (intro np_add_small) simp_all
          with b have b': "scan_body h t n idx samples = Inr (Some (?s, (int fo, ?e, ?rep)))"
            by simp
          have e: "idx < ?e" "?e \<le> int (length samples)" "0 \<le> ?e"
            using fo(1,2) n idx0 r by linarith+
          have I': "I ?e ?s (regs @ [(int fo, ?e, ?rep)])"
            using idx0 \<open>idx + n < int (length samples)\<close> I0 fo by (rule step)
          have m: "length ?s - nat ?e < length samples - nat idx"
            using e idx0 \<open>idx + n < int (length samples)\<close> n by simp
          have p: "?e \<le> int (length ?s)" "?e = 0 \<or> n < int (length ?s)" "int (length ?s) < 2 ^ 61"
            using e nl len by simp_all
          from less.hyps [OF m e(3) p I']
          obtain res where res: "scan_loop h t n ?e ?s (regs @ [(int fo, ?e, ?rep)]) = Some res"
            "\<forall>s' regs'. res = Inr (s', regs') \<longrightarrow>
                 (\<exists>idx'. I idx' s' regs' \<and> 0 \<le> idx'
                    \<and> (idx' + n < int (length s') \<longrightarrow>
                         (\<forall>k. nat (idx' + n) \<le> k \<and> k < length s'
                            \<longrightarrow> \<not> outlier_at s' idx' n k)))"
            "h + t < 2 ^ 63 \<longrightarrow> (\<exists>s' regs'. res = Inr (s', regs'))"
            by blast
          from b' cond res(1) have "scan_loop h t n idx samples regs = Some res"
            by (subst scan_loop.simps) simp
          with res(2,3) show ?thesis by blast
        next
          case False
          define w where "w = int fo + ?r - 2 ^ 64"
          let ?s = "py_slice_fill samples (int fo) w (word_of_int ?rep)"
          have wb: "- (2 ^ 63) \<le> w" "w \<le> - (2 ^ 62)"
            using False fits fo61 by (simp_all add: w_def)
          have "wrap_int64 (int fo + ?r) = w"
            unfolding w_def using False fits fo61 by (intro wrap_int64_over) simp_all
          moreover have "fits_int64 ?r" using r fits by (simp add: fits_int64_def)
          ultimately have "np_add (int fo) ?r = Inr w" by (simp add: np_add_def)
          moreover have "min w (int (length samples)) = w" using wb by simp
          ultimately have b': "scan_body h t n idx samples = Inr (Some (?s, (int fo, w, ?rep)))"
            using b by simp
          have "scan_loop h t n w ?s (regs @ [(int fo, w, ?rep)]) = Some (Inl ValueError)"
            using n nl len wb by (intro scan_loop_wrapped) simp_all
          with b' cond have "scan_loop h t n idx samples regs = Some (Inl ValueError)"
            by (subst scan_loop.simps) simp
          moreover have "\<not> h + t < 2 ^ 63" using False fo61 by simp
          ultimately show ?thesis by simp
        qed
      qed
    qed
  qed
qed

text \<open>The two halves of the rule: what holds of a returned state, and when the loop returns.\<close>

lemma scan_loop_returned:
  assumes "1 \<le> n" and "0 \<le> h" and "0 \<le> t"
    and "0 \<le> idx" "idx \<le> int (length samples)" "idx = 0 \<or> n < int (length samples)"
    and "int (length samples) < 2 ^ 61"
    and "I idx samples regs"
    and "\<And>idx s regs fo. 0 \<le> idx \<Longrightarrow> idx + n < int (length s) \<Longrightarrow> I idx s regs
        \<Longrightarrow> nat (idx + n) \<le> fo \<Longrightarrow> fo < length s \<Longrightarrow> outlier_at s idx n fo
        \<Longrightarrow> (\<forall>k. nat (idx + n) \<le> k \<and> k < fo \<longrightarrow> \<not> outlier_at s idx n k)
        \<Longrightarrow> I (min (int fo + (h + t) div 2) (int (length s)))
              (py_slice_fill s (int fo) (min (int fo + (h + t) div 2) (int (length s)))
                 (word_of_int (replacement_of (Min (set (baseline_window s idx n))))))
              (regs @ [(int fo, min (int fo + (h + t) div 2) (int (length s)),
                        replacement_of (Min (set (baseline_window s idx n))))])"
    and "scan_loop h t n idx samples regs = Some (Inr (s', regs'))"
  shows "\<exists>idx'. I idx' s' regs' \<and> 0 \<le> idx'
           \<and> (idx' + n < int (length s') \<longrightarrow>
                (\<forall>k. nat (idx' + n) \<le> k \<and> k < length s' \<longrightarrow> \<not> outlier_at s' idx' n k))"
proof -
  from scan_loop_rule [where I = I, OF assms(1-9)]
  obtain res where "scan_loop h t n idx samples regs = Some res"
    and *: "\<forall>s' regs'. res = Inr (s', regs') \<longrightarrow>
                 (\<exists>idx'. I idx' s' regs' \<and> 0 \<le> idx'
                    \<and> (idx' + n < int (length s') \<longrightarrow>
                         (\<forall>k. nat (idx' + n) \<le> k \<and> k < length s'
                            \<longrightarrow> \<not> outlier_at s' idx' n k)))"
    by blast
  with assms(10) have "res = Inr (s', regs')" by simp
  with * show ?thesis by blast
qed

lemma scan_loop_returns:
  assumes "1 \<le> n" and "0 \<le> h" and "0 \<le> t"
    and "0 \<le> idx" "idx \<le> int (length samples)" "idx = 0 \<or> n < int (length samples)"
    and "int (length samples) < 2 ^ 61" and "h + t < 2 ^ 63"
  shows "\<exists>s' regs'. scan_loop h t n idx samples regs = Some (Inr (s', regs'))"
proof -
  from scan_loop_rule [where I = "\<lambda>_ _ _. True", OF assms(1-7) TrueI TrueI, of regs]
  obtain res where "scan_loop h t n idx samples regs = Some res"
    and "h + t < 2 ^ 63 \<longrightarrow> (\<exists>s' regs'. res = Inr (s', regs'))"
    by blast
  with assms(8) show ?thesis by blast
qed

lemma scan_loop_terminates:
  assumes "1 \<le> n" and "0 \<le> h" and "0 \<le> t"
    and "0 \<le> idx" "idx \<le> int (length samples)" "idx = 0 \<or> n < int (length samples)"
    and "int (length samples) < 2 ^ 61"
  shows "\<exists>res. scan_loop h t n idx samples regs = Some res"
proof -
  from scan_loop_rule [where I = "\<lambda>_ _ _. True", OF assms(1-7) TrueI TrueI, of regs]
  show ?thesis by blast
qed

section \<open>The decoder\<close>

lemma frombuffer_u2_even:
  "even (length bs) \<Longrightarrow>
     \<exists>ws. frombuffer_u2 bs = Inr ws \<and> length ws = length bs div 2
        \<and> (\<forall>i<length ws. ws ! i = word_of_nat (unat (bs ! (2 * i)) + 256 * unat (bs ! (2 * i + 1))))"
proof (induction bs rule: frombuffer_u2.induct)
  case 1
  then show ?case by simp
next
  case (2 b)
  then show ?case by simp
next
  case (3 lo hi bs)
  then obtain ws where ws: "frombuffer_u2 bs = Inr ws" "length ws = length bs div 2"
    "\<forall>i<length ws. ws ! i = word_of_nat (unat (bs ! (2 * i)) + 256 * unat (bs ! (2 * i + 1)))"
    by auto
  let ?w = "word_of_nat (unat lo + 256 * unat hi) :: sample"
  have "frombuffer_u2 (lo # hi # bs) = Inr (?w # ws)" using ws(1) by simp
  moreover have "length (?w # ws) = length (lo # hi # bs) div 2" using ws(2) by simp
  moreover have "(?w # ws) ! i =
      word_of_nat (unat ((lo # hi # bs) ! (2 * i)) + 256 * unat ((lo # hi # bs) ! (2 * i + 1)))"
    if "i < length (?w # ws)" for i
  proof (cases i)
    case 0
    then show ?thesis by simp
  next
    case (Suc j)
    with that ws(3) show ?thesis by simp
  qed
  ultimately show ?case by blast
qed

lemma unat_le_pair: "unat (word_of_nat (unat (lo :: 8 word) + 256 * unat (hi :: 8 word)) :: sample)
    = unat lo + 256 * unat hi"
proof -
  have "unat lo < 256" "unat hi < 256"
    using unsigned_less [of lo] unsigned_less [of hi] by simp_all
  then have "unat lo + 256 * unat hi < 2 ^ 16" by simp
  then have "(unat lo + 256 * unat hi) mod 2 ^ LENGTH(16) = unat lo + 256 * unat hi" by simp
  then show ?thesis by (simp only: unat_of_nat)
qed

lemma norm_index_minus1: "0 < len \<Longrightarrow> norm_index (- 1) len = len - 1"
  by (simp add: norm_index_def)

lemma decode_tail:
  assumes "0 \<le> header_size"
  shows "decode data header_size =
     frombuffer_u2 (take (2 * ((length data - nat header_size) div 2)) (drop (nat header_size) data))"
proof -
  define body where "body = drop (nat header_size) data"
  have lbody: "length data - nat header_size = length body" by (simp add: body_def)
  have a: "norm_index header_size (length data) = min (nat header_size) (length data)"
    using assms by (simp add: norm_index_def)
  have tail: "py_slice_from data header_size = body"
    by (cases "nat header_size \<le> length data") (simp_all add: py_slice_from_def a min_def body_def)
  have dec: "decode data header_size =
      frombuffer_u2 (if length body mod 2 \<noteq> 0 then py_slice_to body (- 1) else body)"
    by (simp add: decode_def tail Let_def)
  have "(if length body mod 2 \<noteq> 0 then py_slice_to body (- 1) else body)
          = take (2 * (length body div 2)) body"
  proof (cases "even (length body)")
    case True
    then have "2 * (length body div 2) = length body" by simp
    then have "take (2 * (length body div 2)) body = body" by simp
    moreover from True have "length body mod 2 = 0" by presburger
    ultimately show ?thesis by simp
  next
    case False
    then have "0 < length body" by (rule odd_pos)
    then have "norm_index (- 1) (length body) = length body - 1"
      by (rule norm_index_minus1)
    moreover from False have "2 * (length body div 2) = length body - 1" by presburger
    ultimately have "py_slice_to body (- 1) = take (2 * (length body div 2)) body"
      by (simp add: py_slice_to_def)
    moreover from False have "length body mod 2 \<noteq> 0" by presburger
    ultimately show ?thesis by simp
  qed
  then show ?thesis unfolding dec lbody by (simp only: body_def)
qed

lemma decode_total:
  assumes "0 \<le> header_size"
  shows "\<exists>samples. decode data header_size = Inr samples"
proof -
  have "even (length (take (2 * ((length data - nat header_size) div 2))
                        (drop (nat header_size) data)))" by simp
  from frombuffer_u2_even [OF this] show ?thesis
    unfolding decode_tail [OF assms] by blast
qed

lemma frombuffer_u2_replicate:
  "frombuffer_u2 (concat (replicate n [lo, hi]) @ bs) =
     (case frombuffer_u2 bs of
        Inl e \<Rightarrow> Inl e
      | Inr ws \<Rightarrow> Inr (replicate n (word_of_nat (unat lo + 256 * unat hi)) @ ws))"
  by (induction n) (simp_all split: sum.splits)

text \<open>
  C6. For \<open>header_size \<ge> 0\<close> the decoder raises nothing and returns exactly
  \<open>floor(len(body) / 2)\<close> samples, where \<open>body\<close> is the buffer without its first
  \<open>header_size\<close> bytes; sample \<open>i\<close> is the little-endian value of bytes \<open>2i\<close> and
  \<open>2i + 1\<close> of \<open>body\<close> (so a trailing odd byte is dropped), and a \<open>header_size\<close>
  beyond the buffer gives the empty sequence.
\<close>

theorem decode_postcondition:
  assumes "0 \<le> header_size"
  shows "\<exists>samples. decode data header_size = Inr samples
     \<and> length samples = (length data - nat header_size) div 2
     \<and> (\<forall>i<length samples.
           unat (samples ! i) = unat (data ! (nat header_size + 2 * i))
                                + 256 * unat (data ! (nat header_size + 2 * i + 1)))
     \<and> (int (length data) < header_size \<longrightarrow> samples = [])"
proof -
  let ?m = "(length data - nat header_size) div 2"
  let ?bs = "take (2 * ?m) (drop (nat header_size) data)"
  have lbs: "length ?bs = 2 * ?m" by simp
  then have "even (length ?bs)" by simp
  from frombuffer_u2_even [OF this] obtain ws where ws: "frombuffer_u2 ?bs = Inr ws"
    "length ws = length ?bs div 2"
    "\<forall>i<length ws. ws ! i = word_of_nat (unat (?bs ! (2 * i)) + 256 * unat (?bs ! (2 * i + 1)))"
    by blast
  have len: "length ws = ?m" using ws(2) lbs by simp
  have "unat (ws ! i) = unat (data ! (nat header_size + 2 * i))
                                + 256 * unat (data ! (nat header_size + 2 * i + 1))"
    if "i < length ws" for i
  proof -
    from that len have i: "2 * i + 1 < 2 * ?m" by simp
    then have "2 * i < 2 * ?m" by simp
    have le: "nat header_size + (2 * i + 1) < length data" using i by linarith
    have "?bs ! (2 * i) = data ! (nat header_size + 2 * i)"
      using \<open>2 * i < 2 * ?m\<close> le by simp
    moreover have "?bs ! (2 * i + 1) = data ! (nat header_size + 2 * i + 1)"
      using i le by (simp add: add.assoc)
    moreover from ws(3) that
    have "ws ! i = word_of_nat (unat (?bs ! (2 * i)) + 256 * unat (?bs ! (2 * i + 1)))" by blast
    ultimately show ?thesis by (simp only: unat_le_pair)
  qed
  moreover have "decode data header_size = Inr ws"
    using assms ws(1) by (simp add: decode_tail)
  moreover have "int (length data) < header_size \<longrightarrow> ws = []"
    using len by auto
  ultimately show ?thesis using len by blast
qed

theorem decode_postcondition_witness:
  "(0::int) \<le> 1 \<and> (\<exists>samples. decode [0x01, 0x02, 0x03, 0x04, 0x05, 0x06] 1 = Inr samples
      \<and> length samples = 2 \<and> unat (samples ! 0) = 0x0302 \<and> unat (samples ! 1) = 0x0504)"
proof -
  from decode_postcondition [of 1 "[0x01, 0x02, 0x03, 0x04, 0x05, 0x06]"]
  obtain samples where s: "decode [0x01, 0x02, 0x03, 0x04, 0x05, 0x06] 1 = Inr samples"
    "length samples = 2"
    "\<forall>i<length samples. unat (samples ! i) =
       unat ([0x01, 0x02, 0x03, 0x04, 0x05, 0x06 :: 8 word] ! (nat 1 + 2 * i))
         + 256 * unat ([0x01, 0x02, 0x03, 0x04, 0x05, 0x06 :: 8 word] ! (nat 1 + 2 * i + 1))"
    by auto
  from s(2,3) have "unat (samples ! 0) = 0x0302" by simp
  moreover from s(2,3) have "unat (samples ! 1) = 0x0504" by simp
  ultimately show ?thesis using s(1,2) by simp
qed

section \<open>Evaluating iterations\<close>

lemma baseline_window_nonempty:
  assumes "1 \<le> n" and "0 \<le> idx" and "idx + n \<le> int (length samples)"
  shows "baseline_window samples idx n \<noteq> []"
proof -
  have "take (nat n) (drop (nat idx) samples) \<noteq> []" using assms by simp
  then show ?thesis using assms by (simp add: baseline_window_eq)
qed

lemma baseline_window_amplitudes:
  "x \<in> set (baseline_window samples idx n) \<Longrightarrow> unat x < 4096"
  unfolding baseline_window_def using unat_amplitude_lt by auto

lemma outlier_at_exact:
  assumes "1 \<le> n" and "0 \<le> idx" and "idx + n \<le> int (length samples)"
  shows "outlier_at samples idx n k \<longleftrightarrow>
           10 * unat (amplitude (samples ! k)) < 7 * unat (Min (set (baseline_window samples idx n)))
         \<or> 13 * unat (Max (set (baseline_window samples idx n))) < 10 * unat (amplitude (samples ! k))"
proof -
  let ?W = "baseline_window samples idx n"
  have ne: "set ?W \<noteq> {}" using baseline_window_nonempty [OF assms] by simp
  have "Min (set ?W) \<in> set ?W" "Max (set ?W) \<in> set ?W"
    using ne by (auto intro: Min_in Max_in)
  then have "unat (Min (set ?W)) < 4096" "unat (Max (set ?W)) < 4096"
    by (auto intro: baseline_window_amplitudes)
  then show ?thesis
    by (simp only: outlier_at_def is_outlier_def low_thresh_exact high_thresh_exact)
qed

lemma scan_body_break:
  assumes "1 \<le> n" and "0 \<le> idx" and "idx + n < int (length s)"
    and "\<forall>k. nat (idx + n) \<le> k \<and> k < length s \<longrightarrow> \<not> outlier_at s idx n k"
    and "int (length s) \<le> 2 ^ 63"
  shows "scan_body h t n idx s = Inr None"
  using scan_body_cases [OF assms(1-3,5), of h t] assms(4) by blast

text \<open>
  An iteration that finds a first outlier \<open>fo\<close>: the result of line 73 in general, and
  the masked region when the sum of line 73 stays below \<open>2 ^ 63\<close>.
\<close>

lemma scan_body_first:
  assumes "1 \<le> n" and "0 \<le> idx" and "idx + n < int (length s)"
    and "nat (idx + n) \<le> fo" and "fo < length s" and "outlier_at s idx n fo"
    and "\<forall>k. nat (idx + n) \<le> k \<and> k < fo \<longrightarrow> \<not> outlier_at s idx n k"
    and "int (length s) \<le> 2 ^ 63"
  shows "scan_body h t n idx s =
           (case np_add (int fo) ((h + t) div 2) of
              Inl e \<Rightarrow> Inl e
            | Inr e \<Rightarrow>
                Inr (Some (py_slice_fill s (int fo) (min e (int (length s)))
                             (word_of_int (replacement_of (Min (set (baseline_window s idx n))))),
                           (int fo, min e (int (length s)),
                            replacement_of (Min (set (baseline_window s idx n)))))))"
proof -
  from scan_body_cases [OF assms(1-3,8), of h t] assms(4-6)
  obtain fo' where fo': "nat (idx + n) \<le> fo'" "fo' < length s" "outlier_at s idx n fo'"
      "\<forall>k. nat (idx + n) \<le> k \<and> k < fo' \<longrightarrow> \<not> outlier_at s idx n k"
    and b: "scan_body h t n idx s =
           (case np_add (int fo') ((h + t) div 2) of
              Inl e \<Rightarrow> Inl e
            | Inr e \<Rightarrow>
                Inr (Some (py_slice_fill s (int fo') (min e (int (length s)))
                             (word_of_int (replacement_of (Min (set (baseline_window s idx n))))),
                           (int fo', min e (int (length s)),
                            replacement_of (Min (set (baseline_window s idx n)))))))"
    by blast
  have "\<not> fo' < fo" using fo'(1,3) assms(7) by blast
  moreover have "\<not> fo < fo'" using fo'(4) assms(4,6) by blast
  ultimately have eq: "fo' = fo" by simp
  show ?thesis using b unfolding eq .
qed

lemma scan_body_mask:
  assumes "1 \<le> n" and "0 \<le> idx" and "idx + n < int (length s)"
    and "nat (idx + n) \<le> fo" and "fo < length s" and "outlier_at s idx n fo"
    and "\<forall>k. nat (idx + n) \<le> k \<and> k < fo \<longrightarrow> \<not> outlier_at s idx n k"
    and "0 \<le> (h + t) div 2" and "int fo + (h + t) div 2 < 2 ^ 63"
    and "int (length s) \<le> 2 ^ 63"
  shows "scan_body h t n idx s =
           Inr (Some (py_slice_fill s (int fo) (min (int fo + (h + t) div 2) (int (length s)))
                        (word_of_int (replacement_of (Min (set (baseline_window s idx n))))),
                      (int fo, min (int fo + (h + t) div 2) (int (length s)),
                       replacement_of (Min (set (baseline_window s idx n))))))"
proof -
  have "np_add (int fo) ((h + t) div 2) = Inr (int fo + (h + t) div 2)"
    using assms(8,9) by (intro np_add_small) simp_all
  with scan_body_first [OF assms(1-7,10), of h t] show ?thesis by simp
qed

lemma loop_condition:
  assumes "1 \<le> n" and "0 \<le> idx" and "idx + n < int (length s)"
    and "int (length s) \<le> 2 ^ 63"
  shows "cursor_plus idx n < int (length s)"
proof -
  have "cursor_plus idx n = idx + n" using assms by (intro cursor_plus_small) simp_all
  with assms(3) show ?thesis by simp
qed

lemma scan_loop_stop:
  assumes "0 \<le> idx" and "0 \<le> n" and "idx + n < 2 ^ 63" and "\<not> idx + n < int (length s)"
  shows "scan_loop h t n idx s regs = Some (Inr (s, regs))"
proof -
  have "cursor_plus idx n = idx + n" using assms(1-3) by (rule cursor_plus_small)
  with assms(4) show ?thesis by (subst scan_loop.simps) simp
qed

lemma scan_loop_break:
  assumes "1 \<le> n" and "0 \<le> idx" and "idx + n < int (length s)"
    and "\<forall>k. nat (idx + n) \<le> k \<and> k < length s \<longrightarrow> \<not> outlier_at s idx n k"
    and "int (length s) \<le> 2 ^ 63"
  shows "scan_loop h t n idx s regs = Some (Inr (s, regs))"
  using scan_body_break [OF assms, of h t] loop_condition [OF assms(1-3,5)]
  by (subst scan_loop.simps) simp

lemma scan_loop_mask:
  assumes "1 \<le> n" and "0 \<le> idx" and "idx + n < int (length s)"
    and "nat (idx + n) \<le> fo" and "fo < length s" and "outlier_at s idx n fo"
    and "\<forall>k. nat (idx + n) \<le> k \<and> k < fo \<longrightarrow> \<not> outlier_at s idx n k"
    and "0 \<le> (h + t) div 2" and "int fo + (h + t) div 2 < 2 ^ 63"
    and "int (length s) \<le> 2 ^ 63"
  shows "scan_loop h t n idx s regs =
           scan_loop h t n (min (int fo + (h + t) div 2) (int (length s)))
             (py_slice_fill s (int fo) (min (int fo + (h + t) div 2) (int (length s)))
                (word_of_int (replacement_of (Min (set (baseline_window s idx n))))))
             (regs @ [(int fo, min (int fo + (h + t) div 2) (int (length s)),
                       replacement_of (Min (set (baseline_window s idx n))))])"
  using scan_body_mask [OF assms, of ] loop_condition [OF assms(1-3,10)]
  by (subst scan_loop.simps) simp

lemma py_slice_fill_middle:
  "py_slice_fill (A @ M @ B) (int (length A)) (int (length A + length M)) v
     = A @ replicate (length M) v @ B"
proof (rule nth_equalityI)
  show "length (py_slice_fill (A @ M @ B) (int (length A)) (int (length A + length M)) v)
      = length (A @ replicate (length M) v @ B)" by simp
next
  fix k assume "k < length (py_slice_fill (A @ M @ B) (int (length A)) (int (length A + length M)) v)"
  then have k: "k < length (A @ M @ B)" by simp
  have "py_slice_fill (A @ M @ B) (int (length A)) (int (length A + length M)) v ! k
      = (if length A \<le> k \<and> int k < int (length A + length M) then v else (A @ M @ B) ! k)"
    by (rule nth_py_slice_fill) (use k in simp_all)
  also have "\<dots> = (A @ replicate (length M) v @ B) ! k"
    by (auto simp: nth_append)
  finally show "py_slice_fill (A @ M @ B) (int (length A)) (int (length A + length M)) v ! k
      = (A @ replicate (length M) v @ B) ! k" .
qed

lemma baseline_window_middle:
  "baseline_window (P @ A @ B) (int (length P)) (int (length A)) = map amplitude A"
proof -
  have "baseline_window (P @ A @ B) (int (length P)) (int (length A))
      = map amplitude (take (nat (int (length A))) (drop (nat (int (length P))) (P @ A @ B)))"
    by (rule baseline_window_eq) simp_all
  then show ?thesis by simp
qed

lemma baseline_window_prefix:
  "baseline_window (A @ B) 0 (int (length A)) = map amplitude A"
  using baseline_window_middle [of "[]" A B] by simp

lemma amplitude_values:
  "amplitude 1000 = 1000" "amplitude 4095 = 4095" "amplitude 0 = 0" "amplitude 700 = 700"
  by (simp_all add: amplitude_def)

lemma replacement_of_1000: "replacement_of 1000 = 700"
  by (simp add: replacement_of_def f64_0_7_def round53_def bit_length.simps Let_def)

text \<open>
  A run with \<open>sample_rate = 1\<close> (a window of 20 samples), \<open>header_size = 2\<close> and
  \<open>trailer_size = 0\<close> (regions of one sample) on two stretches of amplitude 1000, each
  followed by a spike of 4095.
\<close>

lemma run_two_spikes:
  "scanner (replicate 20 1000 @ 4095 # replicate 20 1000 @ [4095]) 2 0 1
     = Some (Inr (replicate 20 1000 @ 700 # replicate 20 1000 @ [700],
                  [(20, 21, 700), (41, 42, 700)]))"
proof -
  let ?A = "replicate 20 (1000 :: sample)"
  let ?s0 = "?A @ 4095 # ?A @ [4095]"
  let ?s1 = "?A @ 700 # ?A @ [4095]"
  let ?s2 = "?A @ 700 # ?A @ [700]"
  have W0: "baseline_window ?s0 0 20 = map amplitude ?A"
    using baseline_window_prefix [of ?A "[4095] @ ?A @ [4095]"] by simp
  have mm0: "Min (set (baseline_window ?s0 0 20)) = 1000" "Max (set (baseline_window ?s0 0 20)) = 1000"
    unfolding W0 by (simp_all add: amplitude_values)
  have out0: "outlier_at ?s0 0 20 k \<longleftrightarrow>
      10 * unat (amplitude (?s0 ! k)) < 7000 \<or> 13000 < 10 * unat (amplitude (?s0 ! k))" for k
    by (subst outlier_at_exact) (simp_all add: mm0)
  have o0: "outlier_at ?s0 0 20 20" unfolding out0 by (simp add: nth_append amplitude_values)
  have none0: "\<forall>k. nat (0 + 20) \<le> k \<and> k < 20 \<longrightarrow> \<not> outlier_at ?s0 0 20 k" by auto
  have fill0: "py_slice_fill ?s0 (int 20) (min (int 20 + (2 + 0) div 2) (int (length ?s0))) (word_of_int 700) = ?s1"
    using py_slice_fill_middle [of ?A "[4095]" "?A @ [4095]" "700"] by simp
  have step0: "scan_loop 2 0 20 0 ?s0 [] = scan_loop 2 0 20 21 ?s1 [(20, 21, 700)]"
    using scan_loop_mask [OF _ _ _ _ _ o0 none0, of 2 0 "[]"] fill0
    by (simp add: mm0 replacement_of_1000)
  have W1: "baseline_window ?s1 21 20 = map amplitude ?A"
    using baseline_window_middle [of "?A @ [700]" ?A "[4095]"] by simp
  have mm1: "Min (set (baseline_window ?s1 21 20)) = 1000" "Max (set (baseline_window ?s1 21 20)) = 1000"
    unfolding W1 by (simp_all add: amplitude_values)
  have out1: "outlier_at ?s1 21 20 k \<longleftrightarrow>
      10 * unat (amplitude (?s1 ! k)) < 7000 \<or> 13000 < 10 * unat (amplitude (?s1 ! k))" for k
    by (subst outlier_at_exact) (simp_all add: mm1)
  have o1: "outlier_at ?s1 21 20 41" unfolding out1 by (simp add: nth_append amplitude_values)
  have none1: "\<forall>k. nat (21 + 20) \<le> k \<and> k < 41 \<longrightarrow> \<not> outlier_at ?s1 21 20 k" by auto
  have fill1: "py_slice_fill ?s1 (int 41) (min (int 41 + (2 + 0) div 2) (int (length ?s1))) (word_of_int 700) = ?s2"
    using py_slice_fill_middle [of "?A @ [700] @ ?A" "[4095]" "[]" "700"] by simp
  have step1: "scan_loop 2 0 20 21 ?s1 [(20, 21, 700)] = scan_loop 2 0 20 42 ?s2 [(20, 21, 700), (41, 42, 700)]"
    using scan_loop_mask [OF _ _ _ _ _ o1 none1, of 2 0 "[(20, 21, 700)]"] fill1
    by (simp add: mm1 replacement_of_1000)
  have "scan_loop 2 0 20 42 ?s2 [(20, 21, 700), (41, 42, 700)]
      = Some (Inr (?s2, [(20, 21, 700), (41, 42, 700)]))"
    by (rule scan_loop_stop) simp_all
  with step0 step1 show ?thesis by (simp add: scanner_def)
qed

lemma body_first_spike:
  "scan_body 2 0 20 0 (replicate 20 1000 @ 4095 # replicate 20 1000 @ [4095])
     = Inr (Some (replicate 20 1000 @ 700 # replicate 20 1000 @ [4095], (20, 21, 700)))"
proof -
  let ?A = "replicate 20 (1000 :: sample)"
  let ?s0 = "?A @ 4095 # ?A @ [4095]"
  let ?s1 = "?A @ 700 # ?A @ [4095]"
  have W0: "baseline_window ?s0 0 20 = map amplitude ?A"
    using baseline_window_prefix [of ?A "[4095] @ ?A @ [4095]"] by simp
  have mm0: "Min (set (baseline_window ?s0 0 20)) = 1000" "Max (set (baseline_window ?s0 0 20)) = 1000"
    unfolding W0 by (simp_all add: amplitude_values)
  have out0: "outlier_at ?s0 0 20 k \<longleftrightarrow>
      10 * unat (amplitude (?s0 ! k)) < 7000 \<or> 13000 < 10 * unat (amplitude (?s0 ! k))" for k
    by (subst outlier_at_exact) (simp_all add: mm0)
  have o0: "outlier_at ?s0 0 20 20" unfolding out0 by (simp add: nth_append amplitude_values)
  have none0: "\<forall>k. nat (0 + 20) \<le> k \<and> k < 20 \<longrightarrow> \<not> outlier_at ?s0 0 20 k" by auto
  have fill0: "py_slice_fill ?s0 (int 20) (min (int 20 + (2 + 0) div 2) (int (length ?s0))) (word_of_int 700) = ?s1"
    using py_slice_fill_middle [of ?A "[4095]" "?A @ [4095]" "700"] by simp
  show ?thesis
    using scan_body_mask [OF _ _ _ _ _ o0 none0, of 2 0] fill0
    by (simp add: mm0 replacement_of_1000)
qed

text \<open>
  A run with the same parameters on a stretch of amplitude 1000 followed by a spike of 4095
  and a sample of amplitude 0, as it is decoded from a file with a header of two bytes; and
  the run on the sequence that it leaves.
\<close>

lemma decode_spike_zero:
  "decode (0 # 0 # concat (replicate 20 [0xE8, 0x03]) @ [0xFF, 0x0F, 0x00, 0x00]) 2
     = Inr (replicate 20 1000 @ [4095, 0])"
proof -
  let ?body = "concat (replicate 20 [0xE8, 0x03 :: 8 word]) @ [0xFF, 0x0F, 0x00, 0x00]"
  have "decode (0 # 0 # ?body) 2 = frombuffer_u2 ?body"
    by (simp add: decode_tail length_concat sum_list_replicate)
  also have "\<dots> = Inr (replicate 20 1000 @ [4095, 0])"
    unfolding frombuffer_u2_replicate by simp
  finally show ?thesis .
qed

lemma run_spike_zero:
  "scanner (replicate 20 1000 @ [4095, 0]) 2 0 1
     = Some (Inr (replicate 20 1000 @ [700, 0], [(20, 21, 700)]))"
proof -
  let ?A = "replicate 20 (1000 :: sample)"
  let ?s0 = "?A @ [4095, 0]"
  let ?s1 = "?A @ [700, 0]"
  have W0: "baseline_window ?s0 0 20 = map amplitude ?A"
    using baseline_window_prefix [of ?A "[4095, 0]"] by simp
  have mm0: "Min (set (baseline_window ?s0 0 20)) = 1000" "Max (set (baseline_window ?s0 0 20)) = 1000"
    unfolding W0 by (simp_all add: amplitude_values)
  have out0: "outlier_at ?s0 0 20 k \<longleftrightarrow>
      10 * unat (amplitude (?s0 ! k)) < 7000 \<or> 13000 < 10 * unat (amplitude (?s0 ! k))" for k
    by (subst outlier_at_exact) (simp_all add: mm0)
  have o0: "outlier_at ?s0 0 20 20" unfolding out0 by (simp add: nth_append amplitude_values)
  have none0: "\<forall>k. nat (0 + 20) \<le> k \<and> k < 20 \<longrightarrow> \<not> outlier_at ?s0 0 20 k" by auto
  have fill0: "py_slice_fill ?s0 (int 20) (min (int 20 + (2 + 0) div 2) (int (length ?s0))) (word_of_int 700) = ?s1"
    using py_slice_fill_middle [of ?A "[4095]" "[0]" "700"] by simp
  have step0: "scan_loop 2 0 20 0 ?s0 [] = scan_loop 2 0 20 21 ?s1 [(20, 21, 700)]"
    using scan_loop_mask [OF _ _ _ _ _ o0 none0, of 2 0 "[]"] fill0
    by (simp add: mm0 replacement_of_1000)
  have "scan_loop 2 0 20 21 ?s1 [(20, 21, 700)] = Some (Inr (?s1, [(20, 21, 700)]))"
    by (rule scan_loop_stop) simp_all
  with step0 show ?thesis by (simp add: scanner_def)
qed

lemma rerun_spike_zero:
  "scanner (replicate 20 1000 @ [700, 0]) 2 0 1
     = Some (Inr (replicate 20 1000 @ [700, 700], [(21, 22, 700)]))"
proof -
  let ?A = "replicate 20 (1000 :: sample)"
  let ?s0 = "?A @ [700, 0]"
  let ?s1 = "?A @ [700, 700]"
  have W0: "baseline_window ?s0 0 20 = map amplitude ?A"
    using baseline_window_prefix [of ?A "[700, 0]"] by simp
  have mm0: "Min (set (baseline_window ?s0 0 20)) = 1000" "Max (set (baseline_window ?s0 0 20)) = 1000"
    unfolding W0 by (simp_all add: amplitude_values)
  have out0: "outlier_at ?s0 0 20 k \<longleftrightarrow>
      10 * unat (amplitude (?s0 ! k)) < 7000 \<or> 13000 < 10 * unat (amplitude (?s0 ! k))" for k
    by (subst outlier_at_exact) (simp_all add: mm0)
  have o0: "outlier_at ?s0 0 20 21" unfolding out0 by (simp add: nth_append amplitude_values)
  have n20: "\<not> outlier_at ?s0 0 20 20" unfolding out0 by (simp add: nth_append amplitude_values)
  have none0: "\<forall>k. nat (0 + 20) \<le> k \<and> k < 21 \<longrightarrow> \<not> outlier_at ?s0 0 20 k"
  proof (intro allI impI)
    fix k :: nat assume "nat (0 + 20) \<le> k \<and> k < 21"
    then have "k = 20" by simp
    with n20 show "\<not> outlier_at ?s0 0 20 k" by simp
  qed
  have fill0: "py_slice_fill ?s0 (int 21) (min (int 21 + (2 + 0) div 2) (int (length ?s0))) (word_of_int 700) = ?s1"
    using py_slice_fill_middle [of "?A @ [700]" "[0]" "[]" "700"] by simp
  have step0: "scan_loop 2 0 20 0 ?s0 [] = scan_loop 2 0 20 22 ?s1 [(21, 22, 700)]"
    using scan_loop_mask [OF _ _ _ _ _ o0 none0, of 2 0 "[]"] fill0
    by (simp add: mm0 replacement_of_1000)
  have "scan_loop 2 0 20 22 ?s1 [(21, 22, 700)] = Some (Inr (?s1, [(21, 22, 700)]))"
    by (rule scan_loop_stop) simp_all
  with step0 show ?thesis by (simp add: scanner_def)
qed

lemma outlier_first_spike:
  "outlier_at (replicate 20 1000 @ 4095 # replicate 20 1000 @ [4095]) 0 20 20"
proof -
  let ?A = "replicate 20 (1000 :: sample)"
  let ?s0 = "?A @ 4095 # ?A @ [4095]"
  have W0: "baseline_window ?s0 0 20 = map amplitude ?A"
    using baseline_window_prefix [of ?A "[4095] @ ?A @ [4095]"] by simp
  have mm0: "Min (set (baseline_window ?s0 0 20)) = 1000" "Max (set (baseline_window ?s0 0 20)) = 1000"
    unfolding W0 by (simp_all add: amplitude_values)
  have out0: "outlier_at ?s0 0 20 k \<longleftrightarrow>
      10 * unat (amplitude (?s0 ! k)) < 7000 \<or> 13000 < 10 * unat (amplitude (?s0 ! k))" for k
    by (subst outlier_at_exact) (simp_all add: mm0)
  show ?thesis unfolding out0 by (simp add: nth_append amplitude_values)
qed

lemma quiet_after_masking:
  "\<forall>k. 20 \<le> k \<and> k < 22 \<longrightarrow> \<not> outlier_at (replicate 20 1000 @ [700, 700]) 0 20 k"
proof (intro allI impI)
  let ?A = "replicate 20 (1000 :: sample)"
  let ?s0 = "?A @ [700, 700]"
  fix k :: nat assume "20 \<le> k \<and> k < 22"
  then have k: "k = 20 \<or> k = 21" by auto
  have W0: "baseline_window ?s0 0 20 = map amplitude ?A"
    using baseline_window_prefix [of ?A "[700, 700]"] by simp
  have mm0: "Min (set (baseline_window ?s0 0 20)) = 1000" "Max (set (baseline_window ?s0 0 20)) = 1000"
    unfolding W0 by (simp_all add: amplitude_values)
  have out0: "outlier_at ?s0 0 20 k \<longleftrightarrow>
      10 * unat (amplitude (?s0 ! k)) < 7000 \<or> 13000 < 10 * unat (amplitude (?s0 ! k))" for k
    by (subst outlier_at_exact) (simp_all add: mm0)
  from k show "\<not> outlier_at ?s0 0 20 k"
    unfolding out0 by (auto simp: nth_append amplitude_values)
qed

lemma py_slice_fill_empty:
  assumes "norm_index j (length xs) \<le> norm_index i (length xs)"
  shows "py_slice_fill xs i j v = xs"
proof -
  have "py_slice_fill xs i j v = map (\<lambda>k. xs ! k) [0..<length xs]"
    unfolding py_slice_fill_def Let_def using assms by (intro map_cong refl) auto
  then show ?thesis by (simp only: map_nth)
qed

text \<open>
  The runs with \<open>sample_rate = 1\<close> and \<open>header_size = 0\<close> on the stretch of amplitude 1000
  followed by a spike of 4095 and a sample of amplitude 0, for two sizes of the trailer.
  With \<open>trailer_size = 2 ^ 64 - 2\<close> the region holds \<open>2 ^ 63 - 1\<close> samples, the sum
  \<open>20 + (2 ^ 63 - 1)\<close> of line 73 wraps around to \<open>- 9223372036854775789\<close>, the slice
  assignment changes nothing and the next \<open>np.min\<close> raises. With \<open>trailer_size = 2 ^ 64\<close>
  the region size \<open>2 ^ 63\<close> does not fit \<open>int64\<close>.
\<close>

lemma body_wrap:
  "scan_body 0 (2 ^ 64 - 2) 20 0 (replicate 20 1000 @ [4095, 0])
     = Inr (Some (replicate 20 1000 @ [4095, 0], (20, - 9223372036854775789, 700)))"
proof -
  let ?A = "replicate 20 (1000 :: sample)"
  let ?s0 = "?A @ [4095, 0]"
  have W0: "baseline_window ?s0 0 20 = map amplitude ?A"
    using baseline_window_prefix [of ?A "[4095, 0]"] by simp
  have mm0: "Min (set (baseline_window ?s0 0 20)) = 1000" "Max (set (baseline_window ?s0 0 20)) = 1000"
    unfolding W0 by (simp_all add: amplitude_values)
  have out0: "outlier_at ?s0 0 20 k \<longleftrightarrow>
      10 * unat (amplitude (?s0 ! k)) < 7000 \<or> 13000 < 10 * unat (amplitude (?s0 ! k))" for k
    by (subst outlier_at_exact) (simp_all add: mm0)
  have o0: "outlier_at ?s0 0 20 20" unfolding out0 by (simp add: nth_append amplitude_values)
  have none0: "\<forall>k. nat (0 + 20) \<le> k \<and> k < 20 \<longrightarrow> \<not> outlier_at ?s0 0 20 k" by auto
  have sum: "np_add (int 20) ((0 + (2 ^ 64 - 2)) div 2) = Inr (- 9223372036854775789)"
    by (simp add: np_add_def fits_int64_def wrap_int64_def)
  have fill0: "py_slice_fill ?s0 (int 20) (- 9223372036854775789) (word_of_int 700) = ?s0"
    by (rule py_slice_fill_empty) (simp add: norm_index_def)
  show ?thesis
    using scan_body_first [OF _ _ _ _ _ o0 none0, of 0 "2 ^ 64 - 2"] fill0
    unfolding sum by (simp add: mm0 replacement_of_1000)
qed

lemma run_wrap:
  "scanner (replicate 20 1000 @ [4095, 0]) 0 (2 ^ 64 - 2) 1 = Some (Inl ValueError)"
proof -
  let ?s0 = "replicate 20 (1000 :: sample) @ [4095, 0]"
  have "cursor_plus 0 20 < int (length ?s0)" by (simp add: cursor_plus_zero)
  with body_wrap have "scan_loop 0 (2 ^ 64 - 2) 20 0 ?s0 []
      = scan_loop 0 (2 ^ 64 - 2) 20 (- 9223372036854775789) ?s0 [(20, - 9223372036854775789, 700)]"
    by (subst scan_loop.simps) simp
  also have "\<dots> = Some (Inl ValueError)"
    by (rule scan_loop_wrapped) simp_all
  finally show ?thesis by (simp add: scanner_def)
qed

lemma run_overflow:
  "scanner (replicate 20 1000 @ [4095, 0]) 0 (2 ^ 64) 1 = Some (Inl OverflowError)"
proof -
  let ?A = "replicate 20 (1000 :: sample)"
  let ?s0 = "?A @ [4095, 0]"
  have W0: "baseline_window ?s0 0 20 = map amplitude ?A"
    using baseline_window_prefix [of ?A "[4095, 0]"] by simp
  have mm0: "Min (set (baseline_window ?s0 0 20)) = 1000" "Max (set (baseline_window ?s0 0 20)) = 1000"
    unfolding W0 by (simp_all add: amplitude_values)
  have out0: "outlier_at ?s0 0 20 k \<longleftrightarrow>
      10 * unat (amplitude (?s0 ! k)) < 7000 \<or> 13000 < 10 * unat (amplitude (?s0 ! k))" for k
    by (subst outlier_at_exact) (simp_all add: mm0)
  have o0: "outlier_at ?s0 0 20 20" unfolding out0 by (simp add: nth_append amplitude_values)
  have none0: "\<forall>k. nat (0 + 20) \<le> k \<and> k < 20 \<longrightarrow> \<not> outlier_at ?s0 0 20 k" by auto
  have sum: "np_add (int 20) ((0 + 2 ^ 64) div 2) = Inl OverflowError"
    by (simp add: np_add_def fits_int64_def)
  have body: "scan_body 0 (2 ^ 64) 20 0 ?s0 = Inl OverflowError"
    using scan_body_first [OF _ _ _ _ _ o0 none0, of 0 "2 ^ 64"]
    unfolding sum by simp
  have "cursor_plus 0 20 < int (length ?s0)" by (simp add: cursor_plus_zero)
  with body have "scan_loop 0 (2 ^ 64) 20 0 ?s0 [] = Some (Inl OverflowError)"
    by (subst scan_loop.simps) simp
  then show ?thesis by (simp add: scanner_def)
qed

text \<open>
  A run with \<open>sample_rate = 1\<close>, \<open>header_size = 2\<close> and \<open>trailer_size = 0\<close> on a stretch
  of amplitude 90 followed by a sample of amplitude 0: the replacement value is 62, the
  binary64 product \<open>0.7 * 90\<close> being just below 63.
\<close>

lemma amplitude_90: "amplitude 90 = 90"
  by (simp add: amplitude_def)

lemma run_min_90:
  "scanner (replicate 20 90 @ [0]) 2 0 1 = Some (Inr (replicate 20 90 @ [62], [(20, 21, 62)]))"
proof -
  let ?A = "replicate 20 (90 :: sample)"
  let ?s0 = "?A @ [0]"
  let ?s1 = "?A @ [62]"
  have W0: "baseline_window ?s0 0 20 = map amplitude ?A"
    using baseline_window_prefix [of ?A "[0]"] by simp
  have mm0: "Min (set (baseline_window ?s0 0 20)) = 90" "Max (set (baseline_window ?s0 0 20)) = 90"
    unfolding W0 by (simp_all add: amplitude_90)
  have out0: "outlier_at ?s0 0 20 k \<longleftrightarrow>
      10 * unat (amplitude (?s0 ! k)) < 630 \<or> 1170 < 10 * unat (amplitude (?s0 ! k))" for k
    by (subst outlier_at_exact) (simp_all add: mm0)
  have o0: "outlier_at ?s0 0 20 20" unfolding out0 by (simp add: nth_append amplitude_values)
  have none0: "\<forall>k. nat (0 + 20) \<le> k \<and> k < 20 \<longrightarrow> \<not> outlier_at ?s0 0 20 k" by auto
  have fill0: "py_slice_fill ?s0 (int 20) (min (int 20 + (2 + 0) div 2) (int (length ?s0))) (word_of_int 62) = ?s1"
    using py_slice_fill_middle [of ?A "[0]" "[]" "62"] by simp
  have step0: "scan_loop 2 0 20 0 ?s0 [] = scan_loop 2 0 20 21 ?s1 [(20, 21, 62)]"
    using scan_loop_mask [OF _ _ _ _ _ o0 none0, of 2 0 "[]"] fill0
    by (simp add: mm0 replacement_of_90)
  have "scan_loop 2 0 20 21 ?s1 [(20, 21, 62)] = Some (Inr (?s1, [(20, 21, 62)]))"
    by (rule scan_loop_stop) simp_all
  with step0 show ?thesis by (simp add: scanner_def)
qed

text \<open>The same run on a stretch of amplitude 1001, which is no multiple of 10.\<close>

lemma amplitude_1001: "amplitude 1001 = 1001"
  by (simp add: amplitude_def)

lemma replacement_of_1001: "replacement_of 1001 = 700"
  by (simp add: replacement_of_def f64_0_7_def round53_def bit_length.simps Let_def)

lemma run_min_1001:
  "scanner (replicate 20 1001 @ [0]) 2 0 1 = Some (Inr (replicate 20 1001 @ [700], [(20, 21, 700)]))"
proof -
  let ?A = "replicate 20 (1001 :: sample)"
  let ?s0 = "?A @ [0]"
  let ?s1 = "?A @ [700]"
  have W0: "baseline_window ?s0 0 20 = map amplitude ?A"
    using baseline_window_prefix [of ?A "[0]"] by simp
  have mm0: "Min (set (baseline_window ?s0 0 20)) = 1001" "Max (set (baseline_window ?s0 0 20)) = 1001"
    unfolding W0 by (simp_all add: amplitude_1001)
  have out0: "outlier_at ?s0 0 20 k \<longleftrightarrow>
      10 * unat (amplitude (?s0 ! k)) < 7007 \<or> 13013 < 10 * unat (amplitude (?s0 ! k))" for k
    by (subst outlier_at_exact) (simp_all add: mm0)
  have o0: "outlier_at ?s0 0 20 20" unfolding out0 by (simp add: nth_append amplitude_values)
  have none0: "\<forall>k. nat (0 + 20) \<le> k \<and> k < 20 \<longrightarrow> \<not> outlier_at ?s0 0 20 k" by auto
  have fill0: "py_slice_fill ?s0 (int 20) (min (int 20 + (2 + 0) div 2) (int (length ?s0))) (word_of_int 700) = ?s1"
    using py_slice_fill_middle [of ?A "[0]" "[]" "700"] by simp
  have step0: "scan_loop 2 0 20 0 ?s0 [] = scan_loop 2 0 20 21 ?s1 [(20, 21, 700)]"
    using scan_loop_mask [OF _ _ _ _ _ o0 none0, of 2 0 "[]"] fill0
    by (simp add: mm0 replacement_of_1001)
  have "scan_loop 2 0 20 21 ?s1 [(20, 21, 700)] = Some (Inr (?s1, [(20, 21, 700)]))"
    by (rule scan_loop_stop) simp_all
  with step0 show ?thesis by (simp add: scanner_def)
qed

section \<open>Properties of the scanner\<close>

lemma decode_length:
  assumes "0 \<le> header_size"
  shows "\<exists>samples. decode data header_size = Inr samples
           \<and> length samples = (length data - nat header_size) div 2"
proof -
  let ?bs = "take (2 * ((length data - nat header_size) div 2)) (drop (nat header_size) data)"
  have l: "length ?bs = 2 * ((length data - nat header_size) div 2)" by simp
  then have "even (length ?bs)" by simp
  from frombuffer_u2_even [OF this] l show ?thesis
    unfolding decode_tail [OF assms] by auto
qed

lemma process_file_scanner:
  assumes "0 \<le> header_size"
  shows "\<exists>samples. decode data header_size = Inr samples
           \<and> (length data < 2 ^ 62 \<longrightarrow> length samples < 2 ^ 61)
           \<and> process_file data header_size trailer_size sample_rate
               = scanner samples header_size trailer_size sample_rate"
proof -
  from decode_length [OF assms, of data]
  obtain samples where d: "decode data header_size = Inr samples"
    and l: "length samples = (length data - nat header_size) div 2" by blast
  have "length samples < 2 ^ 61" if "length data < 2 ^ 62"
  proof -
    have "length samples \<le> length data div 2" unfolding l by (rule div_le_mono) simp
    also have "\<dots> < 2 ^ 61" using that by simp
    finally show ?thesis .
  qed
  with d show ?thesis by (simp add: process_file_def)
qed

lemma scanner_terminates:
  assumes "0 \<le> h" and "0 \<le> t" and "1 \<le> sr" and "length samples < 2 ^ 61"
  shows "\<exists>res. scanner samples h t sr = Some res"
proof -
  have "1 \<le> sr * 20" using assms(3) by simp
  moreover have "int (length samples) < 2 ^ 61" using assms(4) by simp
  ultimately show ?thesis
    unfolding scanner_def using assms(1,2) by (intro scan_loop_terminates) simp_all
qed

lemma scanner_returns:
  assumes "0 \<le> h" and "0 \<le> t" and "1 \<le> sr" and "length samples < 2 ^ 61"
    and "h + t < 2 ^ 63"
  shows "\<exists>samples' regions. scanner samples h t sr = Some (Inr (samples', regions))"
proof -
  have "1 \<le> sr * 20" using assms(3) by simp
  moreover have "int (length samples) < 2 ^ 61" using assms(4) by simp
  ultimately show ?thesis
    unfolding scanner_def using assms(1,2,5) by (intro scan_loop_returns) simp_all
qed

lemma scan_body_progress:
  assumes "1 \<le> n" and "0 \<le> h" and "0 \<le> t" and "0 \<le> idx" and "idx + n < int (length s)"
    and "int (length s) < 2 ^ 61" and "h + t < 2 ^ 63"
    and "scan_body h t n idx s = Inr (Some (s', reg))"
  shows "idx + n \<le> fst reg \<and> fst reg \<le> fst (snd reg) \<and> fst (snd reg) \<le> int (length s)
           \<and> length s' = length s"
proof -
  have r: "0 \<le> (h + t) div 2" "(h + t) div 2 < 2 ^ 62" using assms(2,3,7) by simp_all
  have L: "int (length s) \<le> 2 ^ 63" using assms(6) by simp
  from scan_body_cases [OF assms(1,4,5) L, of h t] assms(8)
  obtain fo where fo: "nat (idx + n) \<le> fo" "fo < length s"
    and b: "scan_body h t n idx s =
           (case np_add (int fo) ((h + t) div 2) of
              Inl e \<Rightarrow> Inl e
            | Inr e \<Rightarrow>
                Inr (Some (py_slice_fill s (int fo) (min e (int (length s)))
                             (word_of_int (replacement_of (Min (set (baseline_window s idx n))))),
                           (int fo, min e (int (length s)),
                            replacement_of (Min (set (baseline_window s idx n)))))))"
    by auto
  have "int fo + (h + t) div 2 < 2 ^ 63" using fo(2) assms(6) r(2) by simp
  then have "np_add (int fo) ((h + t) div 2) = Inr (int fo + (h + t) div 2)"
    using r(1) by (intro np_add_small) simp_all
  with b assms(8)
  have s': "s' = py_slice_fill s (int fo) (min (int fo + (h + t) div 2) (int (length s)))
                 (word_of_int (replacement_of (Min (set (baseline_window s idx n)))))"
    and reg: "reg = (int fo, min (int fo + (h + t) div 2) (int (length s)),
                     replacement_of (Min (set (baseline_window s idx n))))"
    by simp_all
  from fo r(1) show ?thesis unfolding s' reg by simp
qed

text \<open>
  C4 as the code has it. On an array of fewer than \<open>2 ^ 61\<close> samples, for
  \<open>header_size \<ge> 0\<close>, \<open>trailer_size \<ge> 0\<close> and \<open>sample_rate \<ge> 1\<close>, the scan/mask loop
  terminates, by returning or by raising. When \<open>header_size + trailer_size\<close> is below
  \<open>2 ^ 63\<close> it returns, and every iteration that masks a region moves the cursor strictly
  forward, to a position that is at most \<open>len(samples)\<close>, while the length of the sequence
  stays the same.
\<close>

theorem scan_terminates:
  assumes "0 \<le> header_size" and "0 \<le> trailer_size" and "1 \<le> sample_rate"
    and "length samples < 2 ^ 61"
  shows "(\<exists>res. scanner samples header_size trailer_size sample_rate = Some res)
       \<and> (header_size + trailer_size < 2 ^ 63 \<longrightarrow>
            (\<exists>samples' regions.
               scanner samples header_size trailer_size sample_rate = Some (Inr (samples', regions)))
          \<and> (\<forall>idx s s' reg. length s = length samples
                 \<and> 0 \<le> idx \<and> idx + sample_rate * 20 < int (length s)
                 \<and> scan_body header_size trailer_size (sample_rate * 20) idx s
                     = Inr (Some (s', reg))
               \<longrightarrow> idx + 1 \<le> fst (snd reg) \<and> fst (snd reg) \<le> int (length s)
                   \<and> length s' = length s))"
proof (intro conjI impI)
  show "\<exists>res. scanner samples header_size trailer_size sample_rate = Some res"
    using assms by (rule scanner_terminates)
next
  assume "header_size + trailer_size < 2 ^ 63"
  with assms show "\<exists>samples' regions.
      scanner samples header_size trailer_size sample_rate = Some (Inr (samples', regions))"
    by (rule scanner_returns)
next
  assume B: "header_size + trailer_size < 2 ^ 63"
  have n: "1 \<le> sample_rate * 20" using assms(3) by simp
  show "\<forall>idx s s' reg. length s = length samples
                 \<and> 0 \<le> idx \<and> idx + sample_rate * 20 < int (length s)
                 \<and> scan_body header_size trailer_size (sample_rate * 20) idx s
                     = Inr (Some (s', reg))
               \<longrightarrow> idx + 1 \<le> fst (snd reg) \<and> fst (snd reg) \<le> int (length s)
                   \<and> length s' = length s"
  proof (intro allI impI, elim conjE)
    fix idx s s' reg
    assume l: "length s = length samples" and i: "0 \<le> idx" "idx + sample_rate * 20 < int (length s)"
      and b: "scan_body header_size trailer_size (sample_rate * 20) idx s = Inr (Some (s', reg))"
    have "int (length s) < 2 ^ 61" using l assms(4) by simp
    from scan_body_progress [OF n assms(1,2) i this B b] n
    show "idx + 1 \<le> fst (snd reg) \<and> fst (snd reg) \<le> int (length s) \<and> length s' = length s"
      by linarith
  qed
qed

text \<open>
  With \<open>trailer_size = 2 ^ 64 - 2\<close> the first iteration moves the cursor from \<open>0\<close> to
  \<open>- 9223372036854775789\<close> and the scanner raises \<open>ValueError\<close>.
\<close>

theorem termination_counterexample:
  "scan_body 0 (2 ^ 64 - 2) (1 * 20) 0 (replicate 20 1000 @ [4095, 0])
     = Inr (Some (replicate 20 1000 @ [4095, 0], (20, - 9223372036854775789, 700)))
   \<and> scanner (replicate 20 1000 @ [4095, 0]) 0 (2 ^ 64 - 2) 1 = Some (Inl ValueError)"
  using body_wrap run_wrap by simp

text \<open>
  C10. On an array of fewer than \<open>2 ^ 61\<close> samples (an array of 16-bit samples that
  fits an address space), for \<open>header_size \<ge> 0\<close>, \<open>trailer_size \<ge> 0\<close> and
  \<open>sample_rate \<ge> 1\<close>: every region \<open>(start, end, replacement)\<close> of a list that the
  scanner returns satisfies \<open>sample_rate * 20 \<le> start \<le> end \<le> len(samples)\<close>, so the
  first baseline window is never masked and no region extends past the end of the sequence.
  The scanner returns whenever \<open>header_size + trailer_size < 2 ^ 63\<close>; for larger sizes it
  can raise instead (the \<open>int64\<close> sum of line 73), and then returns no region at all.
\<close>

theorem interval_bounds:
  assumes "0 \<le> header_size" and "0 \<le> trailer_size" and "1 \<le> sample_rate"
    and "length samples < 2 ^ 61"
  shows "(\<forall>samples' regions.
            scanner samples header_size trailer_size sample_rate = Some (Inr (samples', regions))
            \<longrightarrow> length samples' = length samples
              \<and> (\<forall>(a, b, c) \<in> set regions.
                    sample_rate * 20 \<le> a \<and> a \<le> b \<and> b \<le> int (length samples)))
       \<and> (header_size + trailer_size < 2 ^ 63 \<longrightarrow>
            (\<exists>samples' regions.
               scanner samples header_size trailer_size sample_rate = Some (Inr (samples', regions))))"
proof (rule conjI)
  show "header_size + trailer_size < 2 ^ 63 \<longrightarrow>
            (\<exists>samples' regions.
               scanner samples header_size trailer_size sample_rate = Some (Inr (samples', regions)))"
    using assms by (intro impI scanner_returns)
next
  have "length samples' = length samples
              \<and> (\<forall>(a, b, c) \<in> set regions.
                    sample_rate * 20 \<le> a \<and> a \<le> b \<and> b \<le> int (length samples))"
    if run: "scanner samples header_size trailer_size sample_rate = Some (Inr (samples', regions))"
    for samples' regions
  proof -
  let ?n = "sample_rate * 20"
  let ?I = "\<lambda>(idx::int) (s::sample list) (regs::region list). length s = length samples
              \<and> (\<forall>(a, b, c) \<in> set regs. ?n \<le> a \<and> a \<le> b \<and> b \<le> int (length samples))"
  have n: "1 \<le> ?n" using assms(3) by simp
  have r: "0 \<le> (header_size + trailer_size) div 2" using assms(1,2) by simp
  have "\<exists>idx'. ?I idx' samples' regions \<and> 0 \<le> idx'
           \<and> (idx' + ?n < int (length samples') \<longrightarrow>
                (\<forall>k. nat (idx' + ?n) \<le> k \<and> k < length samples' \<longrightarrow> \<not> outlier_at samples' idx' ?n k))"
  proof (rule scan_loop_returned [where I = ?I and idx = 0 and regs = "[]", OF n assms(1,2)])
    show "scan_loop header_size trailer_size ?n 0 samples [] = Some (Inr (samples', regions))"
      using run by (simp add: scanner_def)
    show "int (length samples) < 2 ^ 61" using assms(4) by simp
    show "?I 0 samples []" by simp
  next
    fix idx s regs fo
    assume idx: "0 \<le> idx" and I: "?I idx s regs"
      and fo: "nat (idx + ?n) \<le> fo" "fo < length s"
    have "?n \<le> int fo" using fo(1) idx by linarith
    moreover have "int fo \<le> min (int fo + (header_size + trailer_size) div 2) (int (length s))"
      using fo(2) r by simp
    moreover have "min (int fo + (header_size + trailer_size) div 2) (int (length s))
        \<le> int (length samples)" using I by simp
    ultimately show "?I (min (int fo + (header_size + trailer_size) div 2) (int (length s)))
        (py_slice_fill s (int fo) (min (int fo + (header_size + trailer_size) div 2) (int (length s)))
           (word_of_int (replacement_of (Min (set (baseline_window s idx ?n))))))
        (regs @ [(int fo, min (int fo + (header_size + trailer_size) div 2) (int (length s)),
                  replacement_of (Min (set (baseline_window s idx ?n))))])"
      using I by simp
  qed simp_all
  then show ?thesis by blast
  qed
  then show "\<forall>samples' regions.
            scanner samples header_size trailer_size sample_rate = Some (Inr (samples', regions))
            \<longrightarrow> length samples' = length samples
              \<and> (\<forall>(a, b, c) \<in> set regions.
                    sample_rate * 20 \<le> a \<and> a \<le> b \<and> b \<le> int (length samples))"
    by (intro allI impI)
qed

text \<open>
  C3. On an array of fewer than \<open>2 ^ 61\<close> samples, for \<open>header_size \<ge> 0\<close>,
  \<open>trailer_size \<ge> 0\<close> and \<open>sample_rate \<ge> 1\<close>: in every list of regions that the
  scanner returns, for every pair of regions, \<open>i\<close> before \<open>j\<close>, the end of \<open>i\<close> is at
  most the start of \<open>j\<close>, the start of \<open>i\<close> is strictly below the start of \<open>j\<close>, and no
  index lies in both. The scanner returns whenever \<open>header_size + trailer_size < 2 ^ 63\<close>;
  for larger sizes it can raise instead, and then returns no list.
\<close>

theorem intervals_ordered:
  assumes "0 \<le> header_size" and "0 \<le> trailer_size" and "1 \<le> sample_rate"
    and "length samples < 2 ^ 61"
  shows "(\<forall>samples' regions.
            scanner samples header_size trailer_size sample_rate = Some (Inr (samples', regions))
            \<longrightarrow> (\<forall>i j. i < j \<and> j < length regions \<longrightarrow>
                   fst (snd (regions ! i)) \<le> fst (regions ! j)
                 \<and> fst (regions ! i) < fst (regions ! j)
                 \<and> (\<forall>k. \<not> (fst (regions ! i) \<le> k \<and> k < fst (snd (regions ! i))
                           \<and> fst (regions ! j) \<le> k \<and> k < fst (snd (regions ! j))))))
       \<and> (header_size + trailer_size < 2 ^ 63 \<longrightarrow>
            (\<exists>samples' regions.
               scanner samples header_size trailer_size sample_rate = Some (Inr (samples', regions))))"
proof (rule conjI)
  show "header_size + trailer_size < 2 ^ 63 \<longrightarrow>
            (\<exists>samples' regions.
               scanner samples header_size trailer_size sample_rate = Some (Inr (samples', regions)))"
    using assms by (intro impI scanner_returns)
next
  have "\<forall>i j. i < j \<and> j < length regs' \<longrightarrow>
                   fst (snd (regs' ! i)) \<le> fst (regs' ! j)
                 \<and> fst (regs' ! i) < fst (regs' ! j)
                 \<and> (\<forall>k. \<not> (fst (regs' ! i) \<le> k \<and> k < fst (snd (regs' ! i))
                           \<and> fst (regs' ! j) \<le> k \<and> k < fst (snd (regs' ! j))))"
    if run: "scanner samples header_size trailer_size sample_rate = Some (Inr (s', regs'))"
    for s' regs'
  proof -
  let ?n = "sample_rate * 20"
  let ?I = "\<lambda>(idx::int) (s::sample list) (regs::region list).
              (\<forall>i<length regs. fst (regs ! i) \<le> fst (snd (regs ! i)) \<and> fst (snd (regs ! i)) \<le> idx)
            \<and> (\<forall>i j. i < j \<and> j < length regs \<longrightarrow>
                  fst (snd (regs ! i)) \<le> fst (regs ! j) \<and> fst (regs ! i) < fst (regs ! j))"
  have n: "1 \<le> ?n" using assms(3) by simp
  have r: "0 \<le> (header_size + trailer_size) div 2" using assms(1,2) by simp
  have "\<exists>idx'. ?I idx' s' regs' \<and> 0 \<le> idx'
           \<and> (idx' + ?n < int (length s') \<longrightarrow>
                (\<forall>k. nat (idx' + ?n) \<le> k \<and> k < length s' \<longrightarrow> \<not> outlier_at s' idx' ?n k))"
  proof (rule scan_loop_returned [where I = ?I and idx = 0 and regs = "[]", OF n assms(1,2)])
    show "scan_loop header_size trailer_size ?n 0 samples [] = Some (Inr (s', regs'))"
      using run by (simp add: scanner_def)
    show "int (length samples) < 2 ^ 61" using assms(4) by simp
    show "?I 0 samples []" by simp
  next
    fix idx s regs fo
    assume idx: "0 \<le> idx" and I: "?I idx s regs"
      and fo: "nat (idx + ?n) \<le> fo" "fo < length s"
    let ?e = "min (int fo + (header_size + trailer_size) div 2) (int (length s))"
    let ?reg = "(int fo, ?e, replacement_of (Min (set (baseline_window s idx ?n))))"
    let ?regs = "regs @ [?reg]"
    have lt: "idx < int fo" using fo(1) idx n by linarith
    have le: "int fo \<le> ?e" using fo(2) r by simp
    have old: "?regs ! i = regs ! i" if "i < length regs" for i
      using that by (simp add: nth_append)
    have new: "?regs ! length regs = ?reg" by simp
    have a: "fst (?regs ! i) \<le> fst (snd (?regs ! i)) \<and> fst (snd (?regs ! i)) \<le> ?e"
      if "i < length ?regs" for i
    proof (cases "i < length regs")
      case True
      with I have "fst (regs ! i) \<le> fst (snd (regs ! i))" "fst (snd (regs ! i)) \<le> idx" by blast+
      with lt le show ?thesis unfolding old [OF True] by linarith
    next
      case False
      with that have "i = length regs" by simp
      with le show ?thesis unfolding new by simp
    qed
    have b: "fst (snd (?regs ! i)) \<le> fst (?regs ! j) \<and> fst (?regs ! i) < fst (?regs ! j)"
      if "i < j" "j < length ?regs" for i j
    proof (cases "j < length regs")
      case True
      with that have i: "i < length regs" by simp
      from I that(1) True show ?thesis unfolding old [OF True] old [OF i] by blast
    next
      case False
      with that have j: "j = length regs" and i: "i < length regs" by simp_all
      from I i have "fst (regs ! i) \<le> fst (snd (regs ! i))" "fst (snd (regs ! i)) \<le> idx" by blast+
      with lt show ?thesis unfolding j new old [OF i] by simp
    qed
    from a b show "?I ?e
        (py_slice_fill s (int fo) ?e
           (word_of_int (replacement_of (Min (set (baseline_window s idx ?n)))))) ?regs"
      by blast
  qed simp_all
  then obtain idx' where res: "?I idx' s' regs'" by blast
  have "fst (snd (regs' ! i)) \<le> fst (regs' ! j) \<and> fst (regs' ! i) < fst (regs' ! j)
      \<and> (\<forall>k. \<not> (fst (regs' ! i) \<le> k \<and> k < fst (snd (regs' ! i))
                \<and> fst (regs' ! j) \<le> k \<and> k < fst (snd (regs' ! j))))"
    if "i < j" "j < length regs'" for i j
  proof -
    from res that have "fst (snd (regs' ! i)) \<le> fst (regs' ! j)" "fst (regs' ! i) < fst (regs' ! j)"
      by blast+
    then show ?thesis by auto
  qed
  then show ?thesis by blast
  qed
  then show "\<forall>samples' regions.
            scanner samples header_size trailer_size sample_rate = Some (Inr (samples', regions))
            \<longrightarrow> (\<forall>i j. i < j \<and> j < length regions \<longrightarrow>
                   fst (snd (regions ! i)) \<le> fst (regions ! j)
                 \<and> fst (regions ! i) < fst (regions ! j)
                 \<and> (\<forall>k. \<not> (fst (regions ! i) \<le> k \<and> k < fst (snd (regions ! i))
                           \<and> fst (regions ! j) \<le> k \<and> k < fst (snd (regions ! j)))))"
    by blast
qed

lemma scanner_frame:
  assumes "0 \<le> header_size" and "0 \<le> trailer_size" and "1 \<le> sample_rate"
    and "length samples < 2 ^ 61"
    and run: "scanner samples header_size trailer_size sample_rate = Some (Inr (samples', regions))"
  shows "length samples' = length samples
         \<and> (\<forall>k<length samples.
               (\<forall>(a, b, c) \<in> set regions. \<not> (a \<le> int k \<and> int k < b))
               \<longrightarrow> samples' ! k = samples ! k)"
proof -
  let ?n = "sample_rate * 20"
  let ?I = "\<lambda>(idx::int) (s::sample list) (regs::region list). length s = length samples
            \<and> (\<forall>k<length samples.
                  (\<forall>(a, b, c) \<in> set regs. \<not> (a \<le> int k \<and> int k < b)) \<longrightarrow> s ! k = samples ! k)"
  have n: "1 \<le> ?n" using assms(3) by simp
  have r: "0 \<le> (header_size + trailer_size) div 2" using assms(1,2) by simp
  have "\<exists>idx'. ?I idx' samples' regions \<and> 0 \<le> idx'
           \<and> (idx' + ?n < int (length samples') \<longrightarrow>
                (\<forall>k. nat (idx' + ?n) \<le> k \<and> k < length samples' \<longrightarrow> \<not> outlier_at samples' idx' ?n k))"
  proof (rule scan_loop_returned [where I = ?I and idx = 0 and regs = "[]", OF n assms(1,2)])
    show "scan_loop header_size trailer_size ?n 0 samples [] = Some (Inr (samples', regions))"
      using run by (simp add: scanner_def)
    show "int (length samples) < 2 ^ 61" using assms(4) by simp
    show "?I 0 samples []" by simp
  next
    fix idx s regs fo
    assume idx: "0 \<le> idx" and I: "?I idx s regs"
      and fo: "nat (idx + ?n) \<le> fo" "fo < length s"
    let ?e = "min (int fo + (header_size + trailer_size) div 2) (int (length s))"
    let ?v = "word_of_int (replacement_of (Min (set (baseline_window s idx ?n)))) :: sample"
    let ?reg = "(int fo, ?e, replacement_of (Min (set (baseline_window s idx ?n))))"
    have e: "0 \<le> ?e" "?e \<le> int (length s)" using r by simp_all
    have "py_slice_fill s (int fo) ?e ?v ! k = samples ! k"
      if k: "k < length samples"
        and out: "\<forall>(a, b, c) \<in> set (regs @ [?reg]). \<not> (a \<le> int k \<and> int k < b)" for k
    proof -
      from k I have ks: "k < length s" by simp
      from out have "\<not> (int fo \<le> int k \<and> int k < ?e)" by simp
      then have "\<not> (fo \<le> k \<and> int k < ?e)" by simp
      then have "py_slice_fill s (int fo) ?e ?v ! k = s ! k"
        by (simp only: nth_py_slice_fill [OF e ks] if_False)
      moreover from out have "\<forall>(a, b, c) \<in> set regs. \<not> (a \<le> int k \<and> int k < b)" by simp
      with I k have "s ! k = samples ! k" by blast
      ultimately show ?thesis by simp
    qed
    with I show "?I ?e (py_slice_fill s (int fo) ?e ?v) (regs @ [?reg])"
      by (simp only: length_py_slice_fill) blast
  qed simp_all
  then show ?thesis by blast
qed

text \<open>
  C9. For \<open>header_size \<ge> 0\<close>, \<open>trailer_size \<ge> 0\<close> and \<open>sample_rate \<ge> 1\<close>, on a
  buffer of fewer than \<open>2 ^ 62\<close> bytes: whenever the scanner returns, the sample sequence
  has kept its length and every sample whose index lies in none of the returned regions
  \<open>[start, end)\<close> still holds its decoded 16-bit value. The scanner returns whenever
  \<open>header_size + trailer_size < 2 ^ 63\<close>; for larger sizes it can raise instead.
\<close>

theorem frame_property:
  assumes "0 \<le> header_size" and "0 \<le> trailer_size" and "1 \<le> sample_rate"
    and "length data < 2 ^ 62"
  shows "\<exists>samples. decode data header_size = Inr samples
         \<and> (\<forall>samples' regions.
               process_file data header_size trailer_size sample_rate = Some (Inr (samples', regions))
               \<longrightarrow> length samples' = length samples
                 \<and> (\<forall>k<length samples.
                       (\<forall>(a, b, c) \<in> set regions. \<not> (a \<le> int k \<and> int k < b))
                       \<longrightarrow> samples' ! k = samples ! k))
         \<and> (header_size + trailer_size < 2 ^ 63 \<longrightarrow>
               (\<exists>samples' regions.
                  process_file data header_size trailer_size sample_rate
                    = Some (Inr (samples', regions))))"
proof -
  from process_file_scanner [OF assms(1), of data trailer_size sample_rate] assms(4)
  obtain samples where s: "decode data header_size = Inr samples" "length samples < 2 ^ 61"
    "process_file data header_size trailer_size sample_rate
       = scanner samples header_size trailer_size sample_rate" by blast
  have part: "length samples' = length samples
                 \<and> (\<forall>k<length samples.
                       (\<forall>(a, b, c) \<in> set regions. \<not> (a \<le> int k \<and> int k < b))
                       \<longrightarrow> samples' ! k = samples ! k)"
    if "process_file data header_size trailer_size sample_rate = Some (Inr (samples', regions))"
    for samples' regions
    using scanner_frame [OF assms(1-3) s(2)] that unfolding s(3) .
  have tot: "\<exists>samples' regions.
      process_file data header_size trailer_size sample_rate = Some (Inr (samples', regions))"
    if "header_size + trailer_size < 2 ^ 63"
    unfolding s(3) using assms(1-3) s(2) that by (rule scanner_returns)
  from s(1) part tot show ?thesis by blast
qed

lemma baseline_start_append:
  "j < length regs \<Longrightarrow> baseline_start (regs @ [reg]) j = baseline_start regs j"
  by (cases j) (simp_all add: baseline_start_def nth_append)

lemma baseline_start_last:
  "baseline_start (regs @ [reg]) (length regs) = (if regs = [] then 0 else fst (snd (last regs)))"
  by (cases regs rule: rev_cases) (simp_all add: baseline_start_def nth_append)

lemma scanner_mask:
  assumes "0 \<le> header_size" and "0 \<le> trailer_size" and "1 \<le> sample_rate"
    and "length samples < 2 ^ 61"
    and run: "scanner samples header_size trailer_size sample_rate = Some (Inr (samples', regions))"
  shows "length samples' = length samples
         \<and> (\<forall>j<length regions.
               snd (snd (regions ! j)) = replacement_of (Min (set
                 (baseline_window samples (baseline_start regions j) (sample_rate * 20))))
             \<and> (\<forall>k. nat (baseline_start regions j) \<le> k
                      \<and> k < nat (baseline_start regions j + sample_rate * 20)
                    \<longrightarrow> samples' ! k = samples ! k)
             \<and> 0 \<le> baseline_start regions j
             \<and> baseline_start regions j + sample_rate * 20 \<le> int (length samples)
             \<and> (\<forall>k. fst (regions ! j) \<le> int k \<and> int k < fst (snd (regions ! j))
                    \<longrightarrow> samples' ! k = word_of_int (snd (snd (regions ! j)))))"
proof -
  let ?n = "sample_rate * 20"
  define J where "J s regs j \<longleftrightarrow>
      snd (snd (regs ! j)) = replacement_of (Min (set (baseline_window samples (baseline_start regs j) ?n)))
    \<and> (\<forall>k. nat (baseline_start regs j) \<le> k \<and> k < nat (baseline_start regs j + ?n)
           \<longrightarrow> s ! k = samples ! k)
    \<and> 0 \<le> baseline_start regs j
    \<and> baseline_start regs j + ?n \<le> int (length samples)
    \<and> (\<forall>k. fst (regs ! j) \<le> int k \<and> int k < fst (snd (regs ! j))
           \<longrightarrow> s ! k = word_of_int (snd (snd (regs ! j))))"
    for s :: "sample list" and regs :: "region list" and j
  define I where "I idx s regs \<longleftrightarrow> length s = length samples
    \<and> idx = (if regs = [] then 0 else fst (snd (last regs)))
    \<and> (\<forall>k. nat idx \<le> k \<and> k < length samples \<longrightarrow> s ! k = samples ! k)
    \<and> (\<forall>j<length regs. J s regs j \<and> baseline_start regs j + ?n \<le> fst (regs ! j)
                         \<and> fst (regs ! j) \<le> fst (snd (regs ! j))
                         \<and> fst (snd (regs ! j)) \<le> idx)"
    for idx :: int and s :: "sample list" and regs :: "region list"
  have n: "1 \<le> ?n" using assms(3) by simp
  have r: "0 \<le> (header_size + trailer_size) div 2" using assms(1,2) by simp
  have "\<exists>idx'. I idx' samples' regions \<and> 0 \<le> idx'
           \<and> (idx' + ?n < int (length samples') \<longrightarrow>
                (\<forall>k. nat (idx' + ?n) \<le> k \<and> k < length samples' \<longrightarrow> \<not> outlier_at samples' idx' ?n k))"
  proof (rule scan_loop_returned [where I = I and idx = 0 and regs = "[]", OF n assms(1,2)])
    show "scan_loop header_size trailer_size ?n 0 samples [] = Some (Inr (samples', regions))"
      using run by (simp add: scanner_def)
    show "int (length samples) < 2 ^ 61" using assms(4) by simp
    show "I 0 samples []" by (simp add: I_def)
  next
    fix idx s regs fo
    assume idx: "0 \<le> idx" and lt: "idx + ?n < int (length s)" and I: "I idx s regs"
      and fo: "nat (idx + ?n) \<le> fo" "fo < length s"
    let ?e = "min (int fo + (header_size + trailer_size) div 2) (int (length s))"
    let ?rep = "replacement_of (Min (set (baseline_window s idx ?n)))"
    let ?v = "word_of_int ?rep :: sample"
    let ?reg = "(int fo, ?e, ?rep)"
    let ?s = "py_slice_fill s (int fo) ?e ?v"
    let ?regs = "regs @ [?reg]"
    from I have len: "length s = length samples"
      and cur: "idx = (if regs = [] then 0 else fst (snd (last regs)))"
      and orig: "\<And>k. nat idx \<le> k \<Longrightarrow> k < length samples \<Longrightarrow> s ! k = samples ! k"
      and old: "\<And>j. j < length regs \<Longrightarrow> J s regs j \<and> baseline_start regs j + ?n \<le> fst (regs ! j)
                         \<and> fst (regs ! j) \<le> fst (snd (regs ! j))
                         \<and> fst (snd (regs ! j)) \<le> idx"
      unfolding I_def by blast+
    have e: "0 \<le> ?e" "?e \<le> int (length s)" using r by simp_all
    have fo_lo: "idx + ?n \<le> int fo" using fo(1) idx n by linarith
    have fo_e: "int fo \<le> ?e" using fo(2) r by simp
    have nth: "?s ! k = (if fo \<le> k \<and> int k < ?e then ?v else s ! k)" if "k < length s" for k
      using e that by (rule nth_py_slice_fill)
    have below: "?s ! k = s ! k" if "int k < int fo" for k
    proof -
      from that fo(2) have "k < length s" by simp
      from nth [OF this] that show ?thesis by simp
    qed
    have W: "set (baseline_window s idx ?n) = set (baseline_window samples idx ?n)"
    proof (rule baseline_window_cong)
      show "0 \<le> idx" by (rule idx)
      show "0 \<le> ?n" using n by simp
      show "idx + ?n \<le> int (length samples)" using lt len by simp
      show "length s = length samples" by (rule len)
      fix k assume "nat idx \<le> k" "k < nat (idx + ?n)"
      with lt len show "s ! k = samples ! k" by (intro orig) simp_all
    qed
    have bs_new: "baseline_start ?regs (length regs) = idx"
      unfolding baseline_start_last cur by simp
    have 1: "length ?s = length samples" using len by simp
    have 2: "?e = (if ?regs = [] then 0 else fst (snd (last ?regs)))" by simp
    have 3: "?s ! k = samples ! k" if "nat ?e \<le> k" "k < length samples" for k
    proof -
      from that e have "\<not> int k < ?e" by linarith
      with nth [of k] that len have "?s ! k = s ! k" by simp
      moreover have "nat idx \<le> k" using that(1) fo_lo fo_e n by linarith
      ultimately show ?thesis using orig that(2) by simp
    qed
    have 4: "J ?s ?regs j \<and> baseline_start ?regs j + ?n \<le> fst (?regs ! j)
                         \<and> fst (?regs ! j) \<le> fst (snd (?regs ! j))
                         \<and> fst (snd (?regs ! j)) \<le> ?e" if "j < length ?regs" for j
    proof (cases "j < length regs")
      case True
      have rj: "?regs ! j = regs ! j" using True by (simp add: nth_append)
      have bj: "baseline_start ?regs j = baseline_start regs j"
        using True by (rule baseline_start_append)
      from old [OF True] have Jo: "J s regs j"
        and o1: "baseline_start regs j + ?n \<le> fst (regs ! j)"
        and o3: "fst (regs ! j) \<le> fst (snd (regs ! j))"
        and o2: "fst (snd (regs ! j)) \<le> idx" by blast+
      from Jo have j1: "snd (snd (regs ! j)) = replacement_of (Min (set (baseline_window samples (baseline_start regs j) ?n)))"
        and j2: "\<And>k. nat (baseline_start regs j) \<le> k \<Longrightarrow> k < nat (baseline_start regs j + ?n)
           \<Longrightarrow> s ! k = samples ! k"
        and j3: "0 \<le> baseline_start regs j"
        and j4: "baseline_start regs j + ?n \<le> int (length samples)"
        and j5: "\<And>k. fst (regs ! j) \<le> int k \<Longrightarrow> int k < fst (snd (regs ! j))
           \<Longrightarrow> s ! k = word_of_int (snd (snd (regs ! j)))"
        unfolding J_def by blast+
      have k1: "?s ! k = samples ! k"
        if "nat (baseline_start regs j) \<le> k" "k < nat (baseline_start regs j + ?n)" for k
      proof -
        have "int k < baseline_start regs j + ?n" using that(2) by linarith
        then have "int k < int fo" using o1 o2 o3 fo_lo n by linarith
        then show ?thesis using below j2 that by simp
      qed
      have k2: "?s ! k = word_of_int (snd (snd (regs ! j)))"
        if "fst (regs ! j) \<le> int k" "int k < fst (snd (regs ! j))" for k
      proof -
        have "int k < int fo" using that(2) o2 fo_lo n by linarith
        then show ?thesis using below j5 that by simp
      qed
      have "J ?s ?regs j" unfolding J_def rj bj using j1 k1 j3 j4 k2 by blast
      moreover have "fst (snd (regs ! j)) \<le> ?e" using o2 fo_lo fo_e n by linarith
      ultimately show ?thesis unfolding rj bj using o1 o3 by blast
    next
      case False
      with that have j: "j = length regs" by simp
      have rj: "?regs ! j = ?reg" unfolding j by simp
      have bj: "baseline_start ?regs j = idx" unfolding j by (rule bs_new)
      have k1: "?s ! k = samples ! k" if "nat idx \<le> k" "k < nat (idx + ?n)" for k
      proof -
        have "int k < int fo" using that(2) fo_lo by linarith
        moreover have "k < length samples" using that(2) lt len by linarith
        ultimately show ?thesis using below orig that(1) by simp
      qed
      have k2: "?s ! k = ?v" if "int fo \<le> int k" "int k < ?e" for k
      proof -
        from that e have "k < length s" by linarith
        from nth [OF this] that show ?thesis by simp
      qed
      have "J ?s ?regs j" unfolding J_def rj bj
        using W k1 k2 idx lt len by (simp del: length_py_slice_fill)
      then show ?thesis unfolding rj bj using fo_lo fo_e by simp
    qed
    from 1 2 3 4 show "I ?e ?s ?regs" unfolding I_def by blast
  qed simp_all
  then obtain idx' where res: "I idx' samples' regions" by blast
  then have "length samples' = length samples" "\<forall>j<length regions. J samples' regions j"
    unfolding I_def by blast+
  then show ?thesis unfolding J_def by blast
qed

lemma floor_0_7: "\<lfloor>7 / 10 * real k\<rfloor> = int (7 * k div 10)"
proof -
  have "7 / 10 * real k = real (7 * k) / real 10" by simp
  then show ?thesis by (simp only: floor_divide_of_nat_eq)
qed

text \<open>
  C2 as the code has it. On an array of fewer than \<open>2 ^ 61\<close> samples, for
  \<open>header_size \<ge> 0\<close>, \<open>trailer_size \<ge> 0\<close> and \<open>sample_rate \<ge> 1\<close>, whenever the scanner
  returns, for every returned region \<open>(start, end, replacement_value)\<close>:
  \<open>replacement_value\<close> is \<open>int(0.7 * min_signal) & 0x0FFF\<close> with the product taken in
  binary64, for the minimum amplitude \<open>min_signal\<close> of the baseline window of the iteration
  that produced the region; it is \<open>floor(0.7 * min_signal)\<close> in exact arithmetic or one
  less, and it is \<open>floor(0.7 * min_signal)\<close> when \<open>min_signal\<close> is no multiple of 10; it
  lies in \<open>0 .. 4095\<close>; and every sample with index in \<open>[start, end)\<close> has, in the
  sequence that is returned, amplitude \<open>replacement_value\<close> and quality \<open>0\<close>. The scanner
  returns whenever \<open>header_size + trailer_size < 2 ^ 63\<close>.
\<close>

theorem mask_postcondition:
  assumes "0 \<le> header_size" and "0 \<le> trailer_size" and "1 \<le> sample_rate"
    and "length samples < 2 ^ 61"
  shows "(\<forall>samples' regions.
            scanner samples header_size trailer_size sample_rate = Some (Inr (samples', regions))
            \<longrightarrow> (\<forall>j<length regions.
                   snd (snd (regions ! j)) = replacement_of (Min (set
                     (baseline_window samples' (baseline_start regions j) (sample_rate * 20))))
                 \<and> \<lfloor>7 / 10 * real (unat (Min (set
                       (baseline_window samples' (baseline_start regions j) (sample_rate * 20)))))\<rfloor> - 1
                     \<le> snd (snd (regions ! j))
                 \<and> snd (snd (regions ! j))
                     \<le> \<lfloor>7 / 10 * real (unat (Min (set
                          (baseline_window samples' (baseline_start regions j) (sample_rate * 20)))))\<rfloor>
                 \<and> (\<not> 10 dvd unat (Min (set
                       (baseline_window samples' (baseline_start regions j) (sample_rate * 20))))
                    \<longrightarrow> snd (snd (regions ! j))
                        = \<lfloor>7 / 10 * real (unat (Min (set
                            (baseline_window samples' (baseline_start regions j) (sample_rate * 20)))))\<rfloor>)
                 \<and> 0 \<le> snd (snd (regions ! j)) \<and> snd (snd (regions ! j)) < 4096
                 \<and> (\<forall>k. fst (regions ! j) \<le> int k \<and> int k < fst (snd (regions ! j))
                        \<longrightarrow> uint (amplitude (samples' ! k)) = snd (snd (regions ! j))
                          \<and> quality (samples' ! k) = 0)))
       \<and> (header_size + trailer_size < 2 ^ 63 \<longrightarrow>
            (\<exists>samples' regions.
               scanner samples header_size trailer_size sample_rate = Some (Inr (samples', regions))))"
proof (rule conjI)
  show "header_size + trailer_size < 2 ^ 63 \<longrightarrow>
            (\<exists>samples' regions.
               scanner samples header_size trailer_size sample_rate = Some (Inr (samples', regions)))"
    using assms by (intro impI scanner_returns)
next
  let ?n = "sample_rate * 20"
  have part: "snd (snd (regions ! j)) = replacement_of (Min (set
                 (baseline_window samples' (baseline_start regions j) ?n)))
             \<and> \<lfloor>7 / 10 * real (unat (Min (set
                   (baseline_window samples' (baseline_start regions j) ?n))))\<rfloor> - 1
                 \<le> snd (snd (regions ! j))
             \<and> snd (snd (regions ! j))
                 \<le> \<lfloor>7 / 10 * real (unat (Min (set
                      (baseline_window samples' (baseline_start regions j) ?n))))\<rfloor>
             \<and> (\<not> 10 dvd unat (Min (set
                   (baseline_window samples' (baseline_start regions j) ?n)))
                \<longrightarrow> snd (snd (regions ! j))
                    = \<lfloor>7 / 10 * real (unat (Min (set
                        (baseline_window samples' (baseline_start regions j) ?n))))\<rfloor>)
             \<and> 0 \<le> snd (snd (regions ! j)) \<and> snd (snd (regions ! j)) < 4096
             \<and> (\<forall>k. fst (regions ! j) \<le> int k \<and> int k < fst (snd (regions ! j))
                    \<longrightarrow> uint (amplitude (samples' ! k)) = snd (snd (regions ! j))
                      \<and> quality (samples' ! k) = 0)"
    if run: "scanner samples header_size trailer_size sample_rate = Some (Inr (samples', regions))"
      and j: "j < length regions"
    for samples' regions j
  proof -
    let ?b = "baseline_start regions j"
    let ?c = "snd (snd (regions ! j))"
    let ?m = "Min (set (baseline_window samples' ?b ?n))"
    from scanner_mask [OF assms run] j
    have len: "length samples' = length samples"
      and c: "?c = replacement_of (Min (set (baseline_window samples ?b ?n)))"
      and w: "\<And>k. nat ?b \<le> k \<Longrightarrow> k < nat (?b + ?n) \<Longrightarrow> samples' ! k = samples ! k"
      and b: "0 \<le> ?b" "?b + ?n \<le> int (length samples)"
      and m: "\<And>k. fst (regions ! j) \<le> int k \<Longrightarrow> int k < fst (snd (regions ! j))
                \<Longrightarrow> samples' ! k = word_of_int ?c"
      by blast+
    have n: "1 \<le> ?n" "0 \<le> ?n" using assms(3) by simp_all
    from baseline_window_cong [OF b(1) n(2) b(2) len w]
    have "set (baseline_window samples' ?b ?n) = set (baseline_window samples ?b ?n)" by simp
    with c have c': "?c = replacement_of ?m" by simp
    have "baseline_window samples' ?b ?n \<noteq> []"
      using n(1) b len by (intro baseline_window_nonempty) simp_all
    then have "?m \<in> set (baseline_window samples' ?b ?n)" by (intro Min_in) simp_all
    then have lt: "unat ?m < 4096" by (rule baseline_window_amplitudes)
    have range: "0 \<le> ?c" "?c < 4096"
      unfolding c' using replacement_of_range by blast+
    have fields: "uint (amplitude (samples' ! k)) = ?c \<and> quality (samples' ! k) = 0"
      if "fst (regions ! j) \<le> int k" "int k < fst (snd (regions ! j))" for k
      unfolding m [OF that] using masked_sample_fields [OF range] by simp
    have e1: "\<lfloor>7 / 10 * real (unat ?m)\<rfloor> - 1 \<le> ?c"
      unfolding floor_0_7 c' [symmetric] using replacement_of_exact(2) [OF lt] c' by simp
    have e2: "?c \<le> \<lfloor>7 / 10 * real (unat ?m)\<rfloor>"
      unfolding floor_0_7 using replacement_of_exact(1) [OF lt] c' by simp
    have e3: "?c = \<lfloor>7 / 10 * real (unat ?m)\<rfloor>" if "\<not> 10 dvd unat ?m"
      unfolding floor_0_7 using replacement_of_exact(3) [OF lt that] c' by simp
    from c' e1 e2 e3 range fields show ?thesis by blast
  qed
  show "\<forall>samples' regions.
            scanner samples header_size trailer_size sample_rate = Some (Inr (samples', regions))
            \<longrightarrow> (\<forall>j<length regions.
                   snd (snd (regions ! j)) = replacement_of (Min (set
                     (baseline_window samples' (baseline_start regions j) (sample_rate * 20))))
                 \<and> \<lfloor>7 / 10 * real (unat (Min (set
                       (baseline_window samples' (baseline_start regions j) (sample_rate * 20)))))\<rfloor> - 1
                     \<le> snd (snd (regions ! j))
                 \<and> snd (snd (regions ! j))
                     \<le> \<lfloor>7 / 10 * real (unat (Min (set
                          (baseline_window samples' (baseline_start regions j) (sample_rate * 20)))))\<rfloor>
                 \<and> (\<not> 10 dvd unat (Min (set
                       (baseline_window samples' (baseline_start regions j) (sample_rate * 20))))
                    \<longrightarrow> snd (snd (regions ! j))
                        = \<lfloor>7 / 10 * real (unat (Min (set
                            (baseline_window samples' (baseline_start regions j) (sample_rate * 20)))))\<rfloor>)
                 \<and> 0 \<le> snd (snd (regions ! j)) \<and> snd (snd (regions ! j)) < 4096
                 \<and> (\<forall>k. fst (regions ! j) \<le> int k \<and> int k < fst (snd (regions ! j))
                        \<longrightarrow> uint (amplitude (samples' ! k)) = snd (snd (regions ! j))
                          \<and> quality (samples' ! k) = 0))"
    by (intro allI impI) (rule part)
qed

text \<open>
  With a baseline of amplitude 90 the replacement value is 62, whereas
  \<open>floor(0.7 * 90) & 0x0FFF\<close> is 63.
\<close>

theorem replacement_counterexample:
  "scanner (replicate 20 90 @ [0]) 2 0 1 = Some (Inr (replicate 20 90 @ [62], [(20, 21, 62)]))
   \<and> Min (set (baseline_window (replicate 20 90 @ [0]) 0 (1 * 20))) = 90
   \<and> \<lfloor>7 / 10 * real (unat (90 :: sample))\<rfloor> AND 0x0FFF = (63 :: int)"
proof -
  have "baseline_window (replicate 20 90 @ [0]) 0 20 = map amplitude (replicate 20 90)"
    using baseline_window_prefix [of "replicate 20 90" "[0]"] by simp
  then have "Min (set (baseline_window (replicate 20 90 @ [0]) 0 (1 * 20))) = 90"
    by (simp add: amplitude_90)
  moreover have "\<lfloor>7 / 10 * real (unat (90 :: sample))\<rfloor> AND 0x0FFF = (63 :: int)"
    by simp
  ultimately show ?thesis using run_min_90 by simp
qed

lemma real_thresholds:
  "real a < 7 / 10 * real m \<longleftrightarrow> 10 * a < 7 * m"
  "13 / 10 * real m < real a \<longleftrightarrow> 13 * m < 10 * a"
proof -
  have "real a < 7 / 10 * real m \<longleftrightarrow> real (10 * a) < real (7 * m)"
    by (simp add: mult.commute)
  then show "real a < 7 / 10 * real m \<longleftrightarrow> 10 * a < 7 * m" by (simp only: of_nat_less_iff)
  have "13 / 10 * real m < real a \<longleftrightarrow> real (13 * m) < real (10 * a)"
    by (simp add: mult.commute)
  then show "13 / 10 * real m < real a \<longleftrightarrow> 13 * m < 10 * a" by (simp only: of_nat_less_iff)
qed

text \<open>
  C5. In an iteration of the loop (cursor \<open>idx \<ge> 0\<close>, \<open>sample_rate \<ge> 1\<close>, loop condition
  \<open>idx + window_len < len(samples)\<close> true, an array of fewer than \<open>2 ^ 61\<close> samples), with
  \<open>min_signal\<close> and \<open>max_signal\<close> the minimum and maximum amplitude of the baseline
  window: the test of line 63 holds for a sample exactly when its amplitude is strictly
  below \<open>0.7 * min_signal\<close> or strictly above \<open>1.3 * max_signal\<close> in exact arithmetic (so
  an amplitude equal to a threshold is no outlier); if no sample at an index from
  \<open>idx + window_len\<close> on passes the test the loop stops and returns the regions collected
  so far with the samples unchanged; otherwise the region that is masked starts at the first
  such index, which is at least \<open>idx + window_len\<close>, unless the region size
  \<open>(header_size + trailer_size) // 2\<close> does not fit \<open>int64\<close>, in which case line 73 raises
  \<open>OverflowError\<close> after the detection.
\<close>

theorem outlier_detection:
  assumes "1 \<le> sample_rate" and "0 \<le> idx" and "idx + sample_rate * 20 < int (length samples)"
    and "length samples < 2 ^ 61"
  shows "(\<forall>k. outlier_at samples idx (sample_rate * 20) k \<longleftrightarrow>
            real (unat (amplitude (samples ! k)))
              < 7 / 10 * real (unat (Min (set (baseline_window samples idx (sample_rate * 20)))))
          \<or> 13 / 10 * real (unat (Max (set (baseline_window samples idx (sample_rate * 20)))))
              < real (unat (amplitude (samples ! k))))
       \<and> ((\<forall>k. nat (idx + sample_rate * 20) \<le> k \<and> k < length samples
                \<longrightarrow> \<not> outlier_at samples idx (sample_rate * 20) k)
            \<longrightarrow> scan_body header_size trailer_size (sample_rate * 20) idx samples = Inr None
              \<and> scan_loop header_size trailer_size (sample_rate * 20) idx samples regions
                  = Some (Inr (samples, regions)))
       \<and> (\<forall>fo. nat (idx + sample_rate * 20) \<le> fo \<and> fo < length samples
              \<and> outlier_at samples idx (sample_rate * 20) fo
              \<and> (\<forall>k. nat (idx + sample_rate * 20) \<le> k \<and> k < fo
                     \<longrightarrow> \<not> outlier_at samples idx (sample_rate * 20) k)
            \<longrightarrow> (if fits_int64 ((header_size + trailer_size) div 2)
                 then \<exists>samples' end_idx replacement_value.
                        scan_body header_size trailer_size (sample_rate * 20) idx samples
                          = Inr (Some (samples', (int fo, end_idx, replacement_value)))
                 else scan_body header_size trailer_size (sample_rate * 20) idx samples
                        = Inl OverflowError))"
proof -
  let ?n = "sample_rate * 20"
  have n: "1 \<le> ?n" using assms(1) by simp
  have le: "idx + ?n \<le> int (length samples)" using assms(3) by simp
  have L: "int (length samples) \<le> 2 ^ 63" using assms(4) by simp
  have 1: "outlier_at samples idx ?n k \<longleftrightarrow>
            real (unat (amplitude (samples ! k)))
              < 7 / 10 * real (unat (Min (set (baseline_window samples idx ?n))))
          \<or> 13 / 10 * real (unat (Max (set (baseline_window samples idx ?n))))
              < real (unat (amplitude (samples ! k)))" for k
    unfolding real_thresholds by (rule outlier_at_exact [OF n assms(2) le])
  have 2: "scan_body header_size trailer_size ?n idx samples = Inr None
              \<and> scan_loop header_size trailer_size ?n idx samples regions
                  = Some (Inr (samples, regions))"
    if "\<forall>k. nat (idx + ?n) \<le> k \<and> k < length samples \<longrightarrow> \<not> outlier_at samples idx ?n k"
    using scan_body_break [OF n assms(2,3) that L] scan_loop_break [OF n assms(2,3) that L]
    by blast
  have 3: "if fits_int64 ((header_size + trailer_size) div 2)
           then \<exists>samples' end_idx replacement_value.
                  scan_body header_size trailer_size ?n idx samples
                    = Inr (Some (samples', (int fo, end_idx, replacement_value)))
           else scan_body header_size trailer_size ?n idx samples = Inl OverflowError"
    if "nat (idx + ?n) \<le> fo" "fo < length samples" "outlier_at samples idx ?n fo"
      "\<forall>k. nat (idx + ?n) \<le> k \<and> k < fo \<longrightarrow> \<not> outlier_at samples idx ?n k" for fo
    using scan_body_first [OF n assms(2,3) that L, of header_size trailer_size]
    by (simp add: np_add_def)
  from 1 2 3 show ?thesis by blast
qed

lemma scan_loop_zero_window:
  assumes "0 < length samples"
  shows "scan_loop h t 0 0 samples [] = Some (Inl ValueError)"
proof -
  have cp: "cursor_plus 0 0 = 0" by (rule cursor_plus_zero)
  have "py_slice samples 0 (cursor_plus 0 0) = []"
    unfolding cp by (simp add: py_slice_def Let_def)
  then have "scan_body h t 0 0 samples = Inl ValueError" by (rule scan_body_no_window)
  with assms show ?thesis by (subst scan_loop.simps) (simp add: cp)
qed

lemma scan_loop_empty:
  assumes "0 \<le> n"
  shows "scan_loop h t n 0 [] [] = Some (Inr ([], []))"
  using assms by (subst scan_loop.simps) (simp add: cursor_plus_zero)

text \<open>
  C7 as the code has it. The program validates no parameter and has no
  \<open>ConfigurationError\<close>. With \<open>header_size \<ge> 0\<close>, \<open>trailer_size \<ge> 0\<close>,
  \<open>header_size + trailer_size < 2 ^ 63\<close> and \<open>sample_rate \<ge> 1\<close>, decoding and scanning
  (lines 36 to 79) raise nothing on a buffer of fewer than \<open>2 ^ 62\<close> bytes, whatever the
  relation of \<open>header_size\<close> and \<open>trailer_size\<close> to the buffer length; with \<open>header_size\<close>
  at or beyond the buffer length and \<open>sample_rate \<ge> 0\<close> they produce the empty sample
  sequence and no region; with \<open>sample_rate = 0\<close>, \<open>header_size \<ge> 0\<close> and at least one
  decoded sample the \<open>ValueError\<close> of \<open>np.min\<close> on an empty window is raised from inside
  the loop.
\<close>

theorem no_parameter_validation:
  "(0 \<le> header_size \<and> 0 \<le> trailer_size \<and> header_size + trailer_size < 2 ^ 63
      \<and> 1 \<le> sample_rate \<and> length data < 2 ^ 62 \<longrightarrow>
      (\<exists>samples' regions.
         process_file data header_size trailer_size sample_rate = Some (Inr (samples', regions))))
   \<and> (int (length data) \<le> header_size \<and> 0 \<le> sample_rate \<longrightarrow>
         process_file data header_size trailer_size sample_rate = Some (Inr ([], [])))
   \<and> (0 \<le> header_size \<and> nat header_size + 2 \<le> length data \<longrightarrow>
         process_file data header_size trailer_size 0 = Some (Inl ValueError))"
proof (intro conjI impI)
  assume a: "0 \<le> header_size \<and> 0 \<le> trailer_size \<and> header_size + trailer_size < 2 ^ 63
      \<and> 1 \<le> sample_rate \<and> length data < 2 ^ 62"
  then have h: "0 \<le> header_size" and t: "0 \<le> trailer_size" and sr: "1 \<le> sample_rate"
    and B: "header_size + trailer_size < 2 ^ 63" and d: "length data < 2 ^ 62"
    by simp_all
  from process_file_scanner [OF h, of data trailer_size sample_rate] d
  obtain samples where l: "length samples < 2 ^ 61"
    and p: "process_file data header_size trailer_size sample_rate
      = scanner samples header_size trailer_size sample_rate" by blast
  from scanner_returns [OF h t sr l B]
  show "\<exists>samples' regions.
         process_file data header_size trailer_size sample_rate = Some (Inr (samples', regions))"
    unfolding p .
next
  assume a: "int (length data) \<le> header_size \<and> 0 \<le> sample_rate"
  then have h: "0 \<le> header_size" by linarith
  from decode_length [OF h, of data] a have d: "decode data header_size = Inr []" by auto
  have "scan_loop header_size trailer_size (sample_rate * 20) 0 [] [] = Some (Inr ([], []))"
    by (rule scan_loop_empty) (use a in simp)
  with d show "process_file data header_size trailer_size sample_rate = Some (Inr ([], []))"
    by (simp add: process_file_def scanner_def)
next
  assume a: "0 \<le> header_size \<and> nat header_size + 2 \<le> length data"
  then have h: "0 \<le> header_size" by simp
  from decode_length [OF h, of data] obtain samples where d: "decode data header_size = Inr samples"
    and l: "length samples = (length data - nat header_size) div 2" by blast
  from a have "2 \<le> length data - nat header_size" by linarith
  then have "1 \<le> (length data - nat header_size) div 2" by linarith
  with l have pos: "0 < length samples" by simp
  have "scan_loop header_size trailer_size 0 0 samples [] = Some (Inl ValueError)"
    using pos by (rule scan_loop_zero_window)
  with d show "process_file data header_size trailer_size 0 = Some (Inl ValueError)"
    by (simp add: process_file_def scanner_def)
qed

theorem no_parameter_validation_witness:
  "(0::int) \<le> 2 \<and> (0::int) \<le> 0 \<and> (2::int) + 0 < 2 ^ 63 \<and> (1::int) \<le> 1
   \<and> length (0 # 0 # concat (replicate 20 [0xE8, 0x03]) @ [0xFF, 0x0F, 0x00, 0x00 :: 8 word])
        < 2 ^ 62
   \<and> (\<exists>samples' regions.
        process_file (0 # 0 # concat (replicate 20 [0xE8, 0x03]) @ [0xFF, 0x0F, 0x00, 0x00]) 2 0 1
          = Some (Inr (samples', regions)))
   \<and> int (length [0x01, 0x02 :: 8 word]) \<le> 2 \<and> (0::int) \<le> 150
   \<and> process_file [0x01, 0x02] 2 0 150 = Some (Inr ([], []))
   \<and> (0::int) \<le> 0 \<and> nat 0 + 2 \<le> length [0x01, 0x02 :: 8 word]
   \<and> process_file [0x01, 0x02] 0 0 0 = Some (Inl ValueError)"
  using no_parameter_validation
          [of 2 0 1 "0 # 0 # concat (replicate 20 [0xE8, 0x03]) @ [0xFF, 0x0F, 0x00, 0x00]"]
    no_parameter_validation [of 2 0 150 "[0x01, 0x02]"]
    no_parameter_validation [of 0 0 0 "[0x01, 0x02]"]
  by (simp add: length_concat sum_list_replicate)

theorem validation_counterexample:
  "process_file [0x01, 0x02] 5 0 150 = Some (Inr ([], []))"
proof -
  from decode_length [of 5 "[0x01, 0x02]"] have d: "decode [0x01, 0x02] 5 = Inr []" by simp
  have "scan_loop 5 0 (150 * 20) 0 [] [] = Some (Inr ([], []))"
    by (rule scan_loop_empty) simp
  with d show ?thesis by (simp add: process_file_def scanner_def)
qed

lemma scanner_quiet_iff:
  assumes "0 \<le> h" and "0 \<le> t" and "1 \<le> sr" and "length s < 2 ^ 61"
    and run: "scanner s h t sr = Some (Inr (s', regs'))"
  shows "length s' = length s \<and> (regs' = [] \<longrightarrow> s' = s)
           \<and> (regs' = [] \<longleftrightarrow>
                (sr * 20 < int (length s) \<longrightarrow>
                  (\<forall>k. nat (sr * 20) \<le> k \<and> k < length s \<longrightarrow> \<not> outlier_at s 0 (sr * 20) k)))"
proof -
  let ?n = "sr * 20"
  define I where "I idx x regs \<longleftrightarrow> length x = length s
      \<and> (regs = [] \<longrightarrow> idx = 0 \<and> x = s)
      \<and> (regs \<noteq> [] \<longrightarrow> ?n < int (length s)
            \<and> (\<exists>k. nat ?n \<le> k \<and> k < length s \<and> outlier_at s 0 ?n k))"
    for idx :: int and x :: "sample list" and regs :: "region list"
  have n: "1 \<le> ?n" using assms(3) by simp
  have "\<exists>idx'. I idx' s' regs' \<and> 0 \<le> idx'
           \<and> (idx' + ?n < int (length s') \<longrightarrow>
                (\<forall>k. nat (idx' + ?n) \<le> k \<and> k < length s' \<longrightarrow> \<not> outlier_at s' idx' ?n k))"
  proof (rule scan_loop_returned [where I = I and idx = 0 and regs = "[]", OF n assms(1,2)])
    show "scan_loop h t ?n 0 s [] = Some (Inr (s', regs'))"
      using run by (simp add: scanner_def)
    show "int (length s) < 2 ^ 61" using assms(4) by simp
    show "I 0 s []" by (simp add: I_def)
  next
    fix idx x regs fo
    assume idx: "0 \<le> idx" and lt: "idx + ?n < int (length x)" and I: "I idx x regs"
      and fo: "nat (idx + ?n) \<le> fo" "fo < length x" "outlier_at x idx ?n fo"
    from I have len: "length x = length s" by (simp add: I_def)
    have "?n < int (length s) \<and> (\<exists>k. nat ?n \<le> k \<and> k < length s \<and> outlier_at s 0 ?n k)"
    proof (cases "regs = []")
      case True
      with I have "idx = 0" "x = s" by (simp_all add: I_def)
      with lt fo show ?thesis by auto
    next
      case False
      with I show ?thesis by (simp add: I_def)
    qed
    with len show "I (min (int fo + (h + t) div 2) (int (length x)))
        (py_slice_fill x (int fo) (min (int fo + (h + t) div 2) (int (length x)))
           (word_of_int (replacement_of (Min (set (baseline_window x idx ?n))))))
        (regs @ [(int fo, min (int fo + (h + t) div 2) (int (length x)),
                  replacement_of (Min (set (baseline_window x idx ?n))))])"
      by (simp add: I_def)
  qed simp_all
  then obtain idx' where I: "I idx' s' regs'"
    and quiet: "idx' + ?n < int (length s') \<longrightarrow>
                (\<forall>k. nat (idx' + ?n) \<le> k \<and> k < length s' \<longrightarrow> \<not> outlier_at s' idx' ?n k)"
    by blast
  from I have len: "length s' = length s" and same: "regs' = [] \<longrightarrow> idx' = 0 \<and> s' = s"
    and some: "regs' \<noteq> [] \<longrightarrow> ?n < int (length s)
            \<and> (\<exists>k. nat ?n \<le> k \<and> k < length s \<and> outlier_at s 0 ?n k)"
    by (simp_all add: I_def)
  have "regs' = [] \<longleftrightarrow>
          (?n < int (length s) \<longrightarrow>
            (\<forall>k. nat ?n \<le> k \<and> k < length s \<longrightarrow> \<not> outlier_at s 0 ?n k))"
  proof (cases "regs' = []")
    case True
    with same have "idx' = 0" "s' = s" by simp_all
    with quiet True show ?thesis by simp
  next
    case False
    with some show ?thesis by blast
  qed
  with len same show ?thesis by blast
qed

text \<open>
  C1 as the code has it. For \<open>header_size \<ge> 0\<close>, \<open>trailer_size \<ge> 0\<close> and
  \<open>sample_rate \<ge> 1\<close>, on a buffer of fewer than \<open>2 ^ 62\<close> bytes: whenever both runs
  return, they keep the length of the decoded sequence, and the second run reports no region
  exactly when the sequence left by the first run is no longer than the baseline window or
  none of its samples after the first baseline window is an outlier against that window; it
  then leaves the sequence unchanged. This is the case whenever the first run reported no
  region. Both runs return whenever \<open>header_size + trailer_size < 2 ^ 63\<close>.
\<close>

theorem rescan_quiet_iff:
  assumes "0 \<le> header_size" and "0 \<le> trailer_size" and "1 \<le> sample_rate"
    and "length data < 2 ^ 62"
  shows "\<exists>s0. decode data header_size = Inr s0
         \<and> (\<forall>s1 r1 s2 r2.
               process_file data header_size trailer_size sample_rate = Some (Inr (s1, r1))
             \<and> scanner s1 header_size trailer_size sample_rate = Some (Inr (s2, r2))
             \<longrightarrow> length s1 = length s0 \<and> length s2 = length s1
               \<and> (r2 = [] \<longleftrightarrow>
                    (sample_rate * 20 < int (length s1) \<longrightarrow>
                      (\<forall>k. nat (sample_rate * 20) \<le> k \<and> k < length s1
                         \<longrightarrow> \<not> outlier_at s1 0 (sample_rate * 20) k)))
               \<and> (r2 = [] \<longrightarrow> s2 = s1)
               \<and> (r1 = [] \<longrightarrow> r2 = [] \<and> s2 = s1))
         \<and> (header_size + trailer_size < 2 ^ 63 \<longrightarrow>
               (\<exists>s1 r1 s2 r2.
                  process_file data header_size trailer_size sample_rate = Some (Inr (s1, r1))
                \<and> scanner s1 header_size trailer_size sample_rate = Some (Inr (s2, r2))))"
proof -
  from process_file_scanner [OF assms(1), of data trailer_size sample_rate] assms(4)
  obtain s0 where d: "decode data header_size = Inr s0" and l0: "length s0 < 2 ^ 61"
    and p: "process_file data header_size trailer_size sample_rate
      = scanner s0 header_size trailer_size sample_rate" by blast
  have part: "length s1 = length s0 \<and> length s2 = length s1
               \<and> (r2 = [] \<longleftrightarrow>
                    (sample_rate * 20 < int (length s1) \<longrightarrow>
                      (\<forall>k. nat (sample_rate * 20) \<le> k \<and> k < length s1
                         \<longrightarrow> \<not> outlier_at s1 0 (sample_rate * 20) k)))
               \<and> (r2 = [] \<longrightarrow> s2 = s1)
               \<and> (r1 = [] \<longrightarrow> r2 = [] \<and> s2 = s1)"
    if run1': "process_file data header_size trailer_size sample_rate = Some (Inr (s1, r1))"
      and run2: "scanner s1 header_size trailer_size sample_rate = Some (Inr (s2, r2))"
    for s1 r1 s2 r2
  proof -
    from run1' have run1: "scanner s0 header_size trailer_size sample_rate = Some (Inr (s1, r1))"
      unfolding p .
    from scanner_quiet_iff [OF assms(1-3) l0 run1]
    have len1: "length s1 = length s0" and same1: "r1 = [] \<longrightarrow> s1 = s0" by blast+
    have l1: "length s1 < 2 ^ 61" using l0 len1 by simp
    from scanner_quiet_iff [OF assms(1-3) l1 run2]
    have len2: "length s2 = length s1" and same2: "r2 = [] \<longrightarrow> s2 = s1"
      and iff2: "r2 = [] \<longleftrightarrow>
              (sample_rate * 20 < int (length s1) \<longrightarrow>
                (\<forall>k. nat (sample_rate * 20) \<le> k \<and> k < length s1
                   \<longrightarrow> \<not> outlier_at s1 0 (sample_rate * 20) k))"
      by blast+
    have "r2 = [] \<and> s2 = s1" if "r1 = []"
    proof -
      from that same1 have "s1 = s0" by simp
      with run1 run2 that show ?thesis by simp
    qed
    then have first: "r1 = [] \<longrightarrow> r2 = [] \<and> s2 = s1" by blast
    from len1 len2 iff2 same2 first show ?thesis by (intro conjI) assumption+
  qed
  have tot: "\<exists>s1 r1 s2 r2.
                  process_file data header_size trailer_size sample_rate = Some (Inr (s1, r1))
                \<and> scanner s1 header_size trailer_size sample_rate = Some (Inr (s2, r2))"
    if B: "header_size + trailer_size < 2 ^ 63"
  proof -
    from scanner_returns [OF assms(1-3) l0 B]
    obtain s1 r1 where run1: "scanner s0 header_size trailer_size sample_rate = Some (Inr (s1, r1))"
      by blast
    from scanner_quiet_iff [OF assms(1-3) l0 run1] l0 have "length s1 < 2 ^ 61" by simp
    from scanner_returns [OF assms(1-3) this B] run1 show ?thesis unfolding p by blast
  qed
  have P: "\<forall>s1 r1 s2 r2.
               process_file data header_size trailer_size sample_rate = Some (Inr (s1, r1))
             \<and> scanner s1 header_size trailer_size sample_rate = Some (Inr (s2, r2))
             \<longrightarrow> length s1 = length s0 \<and> length s2 = length s1
               \<and> (r2 = [] \<longleftrightarrow>
                    (sample_rate * 20 < int (length s1) \<longrightarrow>
                      (\<forall>k. nat (sample_rate * 20) \<le> k \<and> k < length s1
                         \<longrightarrow> \<not> outlier_at s1 0 (sample_rate * 20) k)))
               \<and> (r2 = [] \<longrightarrow> s2 = s1)
               \<and> (r1 = [] \<longrightarrow> r2 = [] \<and> s2 = s1)"
    by (intro allI impI, elim conjE) (rule part)
  have T: "header_size + trailer_size < 2 ^ 63 \<longrightarrow>
               (\<exists>s1 r1 s2 r2.
                  process_file data header_size trailer_size sample_rate = Some (Inr (s1, r1))
                \<and> scanner s1 header_size trailer_size sample_rate = Some (Inr (s2, r2)))"
    by (intro impI tot)
  show ?thesis by (rule exI [of _ s0]) (intro conjI d P T)
qed

theorem rescan_quiet_iff_witness:
  "(0::int) \<le> 2 \<and> (0::int) \<le> 0 \<and> (1::int) \<le> 1 \<and> (2::int) + 0 < 2 ^ 63
   \<and> length (0 # 0 # concat (replicate 20 [0xE8, 0x03]) @ [0xFF, 0x0F, 0x00, 0x00 :: 8 word])
        < 2 ^ 62
   \<and> (\<exists>s1 r1 s2 r2.
        process_file (0 # 0 # concat (replicate 20 [0xE8, 0x03]) @ [0xFF, 0x0F, 0x00, 0x00]) 2 0 1
          = Some (Inr (s1, r1))
        \<and> scanner s1 2 0 1 = Some (Inr (s2, r2)))
   \<and> process_file (0 # 0 # concat (replicate 20 [0xE8, 0x03]) @ [0xFF, 0x0F, 0x00, 0x00]) 2 0 1
        = Some (Inr (replicate 20 1000 @ [700, 0], [(20, 21, 700)]))
   \<and> scanner (replicate 20 1000 @ [700, 0]) 2 0 1
        = Some (Inr (replicate 20 1000 @ [700, 700], [(21, 22, 700)]))
   \<and> (1::int) * 20 < int (length (replicate 20 (1000::sample) @ [700, 0]))
   \<and> (\<exists>k. nat (1 * 20) \<le> k \<and> k < length (replicate 20 (1000::sample) @ [700, 0])
          \<and> outlier_at (replicate 20 1000 @ [700, 0]) 0 (1 * 20) k)"
proof -
  let ?data = "0 # 0 # concat (replicate 20 [0xE8, 0x03]) @ [0xFF, 0x0F, 0x00, 0x00] :: 8 word list"
  let ?s1 = "replicate 20 1000 @ [700, 0] :: sample list"
  let ?s2 = "replicate 20 1000 @ [700, 700] :: sample list"
  have p: "process_file ?data 2 0 1 = Some (Inr (?s1, [(20, 21, 700)]))"
    by (simp add: process_file_def decode_spike_zero run_spike_zero)
  have v: "(0::int) \<le> 2" "(0::int) \<le> 0" "(1::int) \<le> 1" "length ?data < 2 ^ 62"
    by (simp_all add: length_concat sum_list_replicate)
  have B: "(2::int) + 0 < 2 ^ 63" by simp
  from rescan_quiet_iff [OF v]
  have all: "\<forall>s1 r1 s2 r2. process_file ?data 2 0 1 = Some (Inr (s1, r1))
             \<and> scanner s1 2 0 1 = Some (Inr (s2, r2))
             \<longrightarrow> (r2 = [] \<longleftrightarrow>
                    (1 * 20 < int (length s1) \<longrightarrow>
                      (\<forall>k. nat (1 * 20) \<le> k \<and> k < length s1 \<longrightarrow> \<not> outlier_at s1 0 (1 * 20) k)))"
    and t: "2 + 0 < (2::int) ^ 63 \<longrightarrow>
              (\<exists>s1 r1 s2 r2. process_file ?data 2 0 1 = Some (Inr (s1, r1))
                 \<and> scanner s1 2 0 1 = Some (Inr (s2, r2)))"
    by blast+
  note ret = t [THEN mp, OF B]
  from all [rule_format, of ?s1 "[(20, 21, 700)]" ?s2 "[(21, 22, 700)]"] p rerun_spike_zero
  have "\<not> (1 * 20 < int (length ?s1) \<longrightarrow>
                (\<forall>k. nat (1 * 20) \<le> k \<and> k < length ?s1 \<longrightarrow> \<not> outlier_at ?s1 0 (1 * 20) k))"
    by simp
  then have "\<exists>k. nat (1 * 20) \<le> k \<and> k < length ?s1 \<and> outlier_at ?s1 0 (1 * 20) k"
    by blast
  with p rerun_spike_zero v B ret show ?thesis by simp
qed

theorem rescan_counterexample:
  "process_file (0 # 0 # concat (replicate 20 [0xE8, 0x03]) @ [0xFF, 0x0F, 0x00, 0x00]) 2 0 1
     = Some (Inr (replicate 20 1000 @ [700, 0], [(20, 21, 700)]))
   \<and> scanner (replicate 20 1000 @ [700, 0]) 2 0 1
     = Some (Inr (replicate 20 1000 @ [700, 700], [(21, 22, 700)]))
   \<and> [(21, 22, 700) :: region] \<noteq> []
   \<and> replicate 20 1000 @ [700, 700] \<noteq> replicate 20 1000 @ [700, 0 :: sample]"
  by (simp add: process_file_def decode_spike_zero run_spike_zero rerun_spike_zero)

lemma not_outlier_window_member:
  assumes "1 \<le> n" and "0 \<le> idx" and "idx + n \<le> int (length s)"
    and "amplitude (s ! k) \<in> set (baseline_window s idx n)"
  shows "\<not> outlier_at s idx n k"
proof -
  let ?W = "set (baseline_window s idx n)"
  have "Min ?W \<le> amplitude (s ! k)" "amplitude (s ! k) \<le> Max ?W"
    using assms(4) by (auto intro: Min_le Max_ge)
  then have "unat (Min ?W) \<le> unat (amplitude (s ! k))" "unat (amplitude (s ! k)) \<le> unat (Max ?W)"
    by (simp_all add: word_le_nat_alt)
  then show ?thesis unfolding outlier_at_exact [OF assms(1-3)] by linarith
qed

lemma outlier_prefix_1000:
  assumes "length A = 3000" and "\<forall>x\<in>set A. amplitude x = 1000"
  shows "outlier_at (A @ T) 0 3000 k \<longleftrightarrow>
           10 * unat (amplitude ((A @ T) ! k)) < 7000 \<or> 13000 < 10 * unat (amplitude ((A @ T) ! k))"
    and "replacement_of (Min (set (baseline_window (A @ T) 0 3000))) = 700"
proof -
  have "A \<noteq> []" using assms(1) by auto
  then obtain a where "a \<in> set A" by (cases A) auto
  with assms(2) have "amplitude ` set A = {1000}" by force
  moreover have "baseline_window (A @ T) 0 3000 = map amplitude A"
    using baseline_window_prefix [of A T] assms(1) by simp
  ultimately have W: "set (baseline_window (A @ T) 0 3000) = {1000}" by simp
  have "(0::int) + 3000 \<le> int (length (A @ T))" using assms(1) by simp
  from outlier_at_exact [OF _ order_refl this, of k]
  show "outlier_at (A @ T) 0 3000 k \<longleftrightarrow>
           10 * unat (amplitude ((A @ T) ! k)) < 7000 \<or> 13000 < 10 * unat (amplitude ((A @ T) ! k))"
    unfolding W by simp
  show "replacement_of (Min (set (baseline_window (A @ T) 0 3000))) = 700"
    unfolding W by (simp add: replacement_of_1000)
qed

lemma spike_first_run:
  assumes "0 \<le> header_size" and "0 \<le> trailer_size"
    and A: "length A = 3000" "\<forall>x\<in>set A. amplitude x = 1000"
    and spike: "amplitude spike = 4095"
    and R: "int (length R) = (header_size + trailer_size) div 2"
    and B: "length B = 3000" "\<forall>x\<in>set B. amplitude x = 1000"
    and L: "length (A @ spike # R @ B) < 2 ^ 61"
  shows "scanner (A @ spike # R @ B) header_size trailer_size 150
     = Some (Inr (A @ replicate (length R) 700 @ last (spike # R) # B,
                  [(3000, 3000 + int (length R), 700)]))"
proof -
  define x where "x = last (spike # R)"
  define F where "F = butlast (spike # R)"
  define G where "G = butlast B"
  define b where "b = last B"
  let ?xs = "A @ spike # R @ B"
  let ?s1 = "A @ replicate (length R) 700 @ x # B"
  let ?e = "3000 + int (length R)"
  have M: "F @ [x] = spike # R" unfolding F_def x_def by (rule append_butlast_last_id) simp
  have lF: "length F = length R" unfolding F_def by simp
  have Bne: "B \<noteq> []" using B(1) by auto
  have Bsplit: "B = G @ [b]" unfolding G_def b_def using Bne by simp
  have lG: "length G = 2999" unfolding G_def using B(1) by simp
  have ampG: "\<forall>y\<in>set G. amplitude y = 1000" using B(2) unfolding Bsplit by simp
  have ampb: "amplitude b = 1000" using B(2) unfolding Bsplit by simp
  have len: "int (length ?xs) = 6001 + int (length R)" using A(1) B(1) by simp
  have cond: "(0::int) + 3000 < int (length ?xs)" using len by simp
  have o: "outlier_at ?xs 0 3000 3000"
    unfolding outlier_prefix_1000(1) [OF A] using A(1) spike by (simp add: nth_append)
  have none: "\<forall>k. nat (0 + 3000) \<le> k \<and> k < 3000 \<longrightarrow> \<not> outlier_at ?xs 0 3000 k" by auto
  have xs: "?xs = A @ F @ (x # B)"
  proof -
    have "A @ F @ (x # B) = A @ (F @ [x]) @ B" by simp
    then show ?thesis unfolding M by simp
  qed
  have "py_slice_fill (A @ F @ (x # B)) (int (length A)) (int (length A + length F)) (700::sample)
      = A @ replicate (length F) 700 @ (x # B)"
    by (rule py_slice_fill_middle)
  then have fill: "py_slice_fill ?xs 3000 ?e (700::sample) = ?s1"
    unfolding xs [symmetric] lF A(1) by simp
  have e: "min (int 3000 + (header_size + trailer_size) div 2) (int (length ?xs)) = ?e"
    using len R by simp
  have n1: "(1::int) \<le> 3000" "nat (0 + 3000) \<le> (3000::nat)" "3000 < length ?xs"
    using A(1) by simp_all
  have L61: "int (length ?xs) < 2 ^ 61" using L by simp
  have n2: "0 \<le> (header_size + trailer_size) div 2"
    "int 3000 + (header_size + trailer_size) div 2 < 2 ^ 63" "int (length ?xs) \<le> 2 ^ 63"
    using assms(1,2) R len L61 by simp_all
  from scan_loop_mask [OF n1(1) order_refl cond n1(2,3) o none n2, of "[]"]
  have step: "scan_loop header_size trailer_size 3000 0 ?xs []
      = scan_loop header_size trailer_size 3000 ?e ?s1 [(3000, ?e, 700)]"
    unfolding e outlier_prefix_1000(2) [OF A] using fill by simp
  have s1: "?s1 = (A @ replicate (length R) 700) @ (x # G) @ [b]"
    unfolding Bsplit by simp
  have "baseline_window ((A @ replicate (length R) 700) @ (x # G) @ [b])
          (int (length (A @ replicate (length R) 700))) (int (length (x # G)))
      = map amplitude (x # G)"
    by (rule baseline_window_middle)
  moreover have "int (length (A @ replicate (length R) 700)) = ?e" using A(1) by simp
  moreover have "int (length (x # G)) = 3000" using lG by simp
  ultimately have W: "baseline_window ?s1 ?e 3000 = map amplitude (x # G)"
    unfolding s1 [symmetric] by simp
  have "G \<noteq> []" using lG by auto
  then obtain g where "g \<in> set G" by (cases G) auto
  with ampG have "1000 \<in> amplitude ` set G" by force
  then have mem: "1000 \<in> set (baseline_window ?s1 ?e 3000)"
    unfolding W by simp
  have len1: "int (length ?s1) = 6001 + int (length R)" using A(1) B(1) by simp
  have quiet: "\<forall>k. nat (?e + 3000) \<le> k \<and> k < length ?s1 \<longrightarrow> \<not> outlier_at ?s1 ?e 3000 k"
  proof (intro allI impI)
    fix k assume "nat (?e + 3000) \<le> k \<and> k < length ?s1"
    with len1 have k: "k = 6000 + length R" by linarith
    have "length ((A @ replicate (length R) 700) @ (x # G)) = k"
      using A(1) lG k by simp
    then have "((A @ replicate (length R) 700) @ (x # G) @ [b]) ! k = b"
      by (metis append_assoc nth_append_length)
    then have "?s1 ! k = b" unfolding s1 [symmetric] .
    with ampb mem have "amplitude (?s1 ! k) \<in> set (baseline_window ?s1 ?e 3000)" by simp
    then show "\<not> outlier_at ?s1 ?e 3000 k"
      by (rule not_outlier_window_member [rotated 3]) (use len1 in simp_all)
  qed
  have "scan_loop header_size trailer_size 3000 ?e ?s1 [(3000, ?e, 700)]
      = Some (Inr (?s1, [(3000, ?e, 700)]))"
    by (rule scan_loop_break [OF _ _ _ quiet]) (use len1 len L61 in simp_all)
  with step show ?thesis unfolding x_def by (simp add: scanner_def)
qed
lemma spike_second_run:
  assumes "0 \<le> header_size" and "0 \<le> trailer_size"
    and A: "length A = 3000" "\<forall>x\<in>set A. amplitude x = 1000"
    and spike: "amplitude spike = 4095"
    and B: "length B = 3000" "\<forall>x\<in>set B. amplitude x = 1000"
    and small: "header_size + trailer_size < 2 ^ 63" "length R + 6001 < 2 ^ 61"
  shows "\<exists>samples'' regions''.
           scanner (A @ replicate (length R) 700 @ last (spike # R) # B) header_size trailer_size 150
             = Some (Inr (samples'', regions''))
         \<and> (regions'' = [] \<longleftrightarrow>
               R \<noteq> [] \<and> 700 \<le> unat (amplitude (last R)) \<and> unat (amplitude (last R)) \<le> 1300)"
proof -
  define x where "x = last (spike # R)"
  define T where "T = replicate (length R) (700::sample) @ x # B"
  let ?s1 = "A @ T"
  have lT: "length T = length R + 3001" unfolding T_def using B(1) by simp
  have len: "int (length ?s1) = 6001 + int (length R)" using A(1) lT by simp
  have out: "outlier_at ?s1 0 3000 k \<longleftrightarrow>
      10 * unat (amplitude (?s1 ! k)) < 7000 \<or> 13000 < 10 * unat (amplitude (?s1 ! k))" for k
    by (rule outlier_prefix_1000(1) [OF A])
  have x: "?s1 ! (3000 + length R) = x"
    using A(1) unfolding T_def by (simp add: nth_append)
  have quiet: "(\<forall>k. nat (150 * 20) \<le> k \<and> k < length ?s1 \<longrightarrow> \<not> outlier_at ?s1 0 (150 * 20) k)
      \<longleftrightarrow> 700 \<le> unat (amplitude x) \<and> unat (amplitude x) \<le> 1300"
  proof
    assume "\<forall>k. nat (150 * 20) \<le> k \<and> k < length ?s1 \<longrightarrow> \<not> outlier_at ?s1 0 (150 * 20) k"
    moreover have "nat (150 * 20) \<le> 3000 + length R \<and> 3000 + length R < length ?s1"
      using A(1) lT by simp
    ultimately have "\<not> outlier_at ?s1 0 (150 * 20) (3000 + length R)" by blast
    then show "700 \<le> unat (amplitude x) \<and> unat (amplitude x) \<le> 1300"
      unfolding x [symmetric] using out [of "3000 + length R"] by simp
  next
    assume ok: "700 \<le> unat (amplitude x) \<and> unat (amplitude x) \<le> 1300"
    show "\<forall>k. nat (150 * 20) \<le> k \<and> k < length ?s1 \<longrightarrow> \<not> outlier_at ?s1 0 (150 * 20) k"
    proof (intro allI impI)
      fix k assume k: "nat (150 * 20) \<le> k \<and> k < length ?s1"
      then have "?s1 ! k = T ! (k - 3000)" "k - 3000 < length T"
        using A(1) by (auto simp: nth_append)
      then have "?s1 ! k \<in> set T" by (metis nth_mem)
      then have "?s1 ! k = 700 \<or> ?s1 ! k = x \<or> ?s1 ! k \<in> set B"
        unfolding T_def by auto
      then have "700 \<le> unat (amplitude (?s1 ! k)) \<and> unat (amplitude (?s1 ! k)) \<le> 1300"
        using ok B(2) by (auto simp: amplitude_values)
      then show "\<not> outlier_at ?s1 0 (150 * 20) k" using out [of k] by simp
    qed
  qed
  have xR: "700 \<le> unat (amplitude x) \<and> unat (amplitude x) \<le> 1300 \<longleftrightarrow>
      R \<noteq> [] \<and> 700 \<le> unat (amplitude (last R)) \<and> unat (amplitude (last R)) \<le> 1300"
    unfolding x_def using spike by (cases "R = []") simp_all
  have l61: "length ?s1 < 2 ^ 61" using A(1) lT small(2) by simp
  have sr: "(1::int) \<le> 150" by simp
  from scanner_returns [OF assms(1,2) sr l61 small(1)]
  obtain s'' regs'' where run: "scanner ?s1 header_size trailer_size 150 = Some (Inr (s'', regs''))"
    by blast
  from scanner_quiet_iff [OF assms(1,2) sr l61 run]
  have iff: "regs'' = [] \<longleftrightarrow>
                (150 * 20 < int (length ?s1) \<longrightarrow>
                  (\<forall>k. nat (150 * 20) \<le> k \<and> k < length ?s1 \<longrightarrow> \<not> outlier_at ?s1 0 (150 * 20) k))"
    by blast
  have "(150::int) * 20 < int (length ?s1)" using len by simp
  with iff quiet xR have "regs'' = [] \<longleftrightarrow>
      R \<noteq> [] \<and> 700 \<le> unat (amplitude (last R)) \<and> unat (amplitude (last R)) \<le> 1300"
    by simp
  with run show ?thesis unfolding T_def x_def by blast
qed

text \<open>
  C8 as the code has it. With \<open>sample_rate = 150\<close>, \<open>header_size \<ge> 0\<close> and
  \<open>trailer_size \<ge> 0\<close>, on a sequence of fewer than \<open>2 ^ 61\<close> samples made of 3000 samples of amplitude 1000, one sample of amplitude 4095
  (any quality bits), \<open>region_len = (header_size + trailer_size) // 2\<close> samples of any
  amplitude and 3000 more samples of amplitude 1000, the scanner returns exactly the region
  \<open>(3000, 3000 + region_len, 700)\<close>; it overwrites \<open>region_len\<close> samples from the
  spike on, so the last of the \<open>region_len\<close> samples after the spike (or the spike, when
  \<open>region_len = 0\<close>) is kept. A second run on the resulting sequence returns no region
  exactly when \<open>region_len \<ge> 1\<close> and that last sample has an amplitude from 700 to
  1300.
\<close>

theorem single_spike_scenario:
  assumes "0 \<le> header_size" and "0 \<le> trailer_size"
    and "length A = 3000" and "\<forall>x\<in>set A. amplitude x = 1000"
    and "amplitude spike = 4095"
    and "int (length R) = (header_size + trailer_size) div 2"
    and "length B = 3000" and "\<forall>x\<in>set B. amplitude x = 1000"
    and "length (A @ spike # R @ B) < 2 ^ 61"
  shows "\<exists>samples' samples'' regions''.
           scanner (A @ spike # R @ B) header_size trailer_size 150
             = Some (Inr (samples', [(3000, 3000 + int (length R), 700)]))
         \<and> samples' = A @ replicate (length R) 700 @ last (spike # R) # B
         \<and> scanner samples' header_size trailer_size 150 = Some (Inr (samples'', regions''))
         \<and> (regions'' = [] \<longleftrightarrow>
               R \<noteq> [] \<and> 700 \<le> unat (amplitude (last R)) \<and> unat (amplitude (last R)) \<le> 1300)"
proof -
  let ?s1 = "A @ replicate (length R) 700 @ last (spike # R) # B"
  have first: "scanner (A @ spike # R @ B) header_size trailer_size 150
      = Some (Inr (?s1, [(3000, 3000 + int (length R), 700)]))"
    using assms by (rule spike_first_run)
  have lR: "length R + 6001 < 2 ^ 61" using assms(3,7,9) by simp
  then have "int (length R) < 2 ^ 61" by simp
  with assms(6) have "header_size + trailer_size < 2 ^ 63" by simp
  from spike_second_run [OF assms(1-5,7,8) this lR]
  obtain samples'' regions'' where
    "scanner ?s1 header_size trailer_size 150 = Some (Inr (samples'', regions''))"
    "regions'' = [] \<longleftrightarrow>
       R \<noteq> [] \<and> 700 \<le> unat (amplitude (last R)) \<and> unat (amplitude (last R)) \<le> 1300"
    by blast
  with first show ?thesis by blast
qed

theorem single_spike_scenario_witness:
  "(0::int) \<le> 2 \<and> (0::int) \<le> 0
   \<and> length (replicate 3000 (1000::sample)) = 3000
   \<and> amplitude 4095 = 4095 \<and> int (length [1000::sample]) = (2 + 0) div 2
   \<and> length (replicate 3000 (1000::sample) @ 4095 # [1000] @ replicate 3000 1000) < 2 ^ 61
   \<and> scanner (replicate 3000 1000 @ 4095 # [1000] @ replicate 3000 1000) 2 0 150
        = Some (Inr (replicate 3000 1000 @ replicate (length [1000::sample]) 700
                       @ last (4095 # [1000]) # replicate 3000 1000,
                     [(3000, 3000 + int (length [1000::sample]), 700)]))
   \<and> (\<exists>samples''.
        scanner (replicate 3000 1000 @ replicate (length [1000::sample]) 700
                   @ last (4095 # [1000]) # replicate 3000 1000) 2 0 150
          = Some (Inr (samples'', [])))"
proof -
  have v: "(0::int) \<le> 2" "(0::int) \<le> 0" "length (replicate 3000 (1000::sample)) = 3000"
    "\<forall>x\<in>set (replicate 3000 (1000::sample)). amplitude x = 1000"
    "amplitude 4095 = 4095" "int (length [1000::sample]) = (2 + 0) div 2"
    "length (replicate 3000 (1000::sample) @ 4095 # [1000] @ replicate 3000 1000) < 2 ^ 61"
    by (simp_all add: amplitude_values)
  from single_spike_scenario [OF v(1-6) v(3,4,7)]
  obtain samples' samples'' regions'' where a:
    "scanner (replicate 3000 1000 @ 4095 # [1000] @ replicate 3000 1000) 2 0 150
       = Some (Inr (samples', [(3000, 3000 + int (length [1000::sample]), 700)]))"
    "samples' = replicate 3000 1000 @ replicate (length [1000::sample]) 700
                  @ last (4095 # [1000]) # replicate 3000 1000"
    "scanner samples' 2 0 150 = Some (Inr (samples'', regions''))"
    "regions'' = [] \<longleftrightarrow> [1000::sample] \<noteq> [] \<and> 700 \<le> unat (amplitude (last [1000::sample]))
        \<and> unat (amplitude (last [1000::sample])) \<le> 1300"
    by blast
  from a(4) have "regions'' = []" by (simp add: amplitude_values)
  with a(1,3) v show ?thesis unfolding a(2) by blast
qed
theorem single_spike_counterexample:
  "scanner (replicate 3000 1000 @ 4095 # [0] @ replicate 3000 1000) 2 0 150
     = Some (Inr (replicate 3000 1000 @ 700 # 0 # replicate 3000 1000, [(3000, 3001, 700)]))
   \<and> scanner (replicate 3000 1000 @ 700 # 0 # replicate 3000 1000) 2 0 150
     = Some (Inr (replicate 3000 1000 @ 700 # 700 # replicate 3000 1000, [(3001, 3002, 700)]))"
proof
  let ?A = "replicate 3000 (1000 :: sample)"
  have A: "length ?A = 3000" "\<forall>x\<in>set ?A. amplitude x = 1000"
    by (simp_all add: amplitude_values)
  have v: "(0::int) \<le> 2" "(0::int) \<le> 0" "amplitude 4095 = 4095"
    "int (length [0::sample]) = (2 + 0) div 2"
    "length (replicate 3000 (1000::sample) @ 4095 # [0] @ replicate 3000 1000) < 2 ^ 61"
    by (simp_all add: amplitude_values)
  from spike_first_run [OF v(1,2) A v(3,4) A v(5)]
  show "scanner (?A @ 4095 # [0] @ ?A) 2 0 150
     = Some (Inr (?A @ 700 # 0 # ?A, [(3000, 3001, 700)]))"
    by simp
  let ?s1 = "?A @ 700 # 0 # ?A"
  let ?s2 = "?A @ 700 # 700 # ?A"
  have out: "outlier_at ?s1 0 3000 k \<longleftrightarrow>
      10 * unat (amplitude (?s1 ! k)) < 7000 \<or> 13000 < 10 * unat (amplitude (?s1 ! k))" for k
    by (rule outlier_prefix_1000(1) [OF A])
  have o: "outlier_at ?s1 0 3000 3001" unfolding out by (simp add: nth_append amplitude_values)
  have n3000: "\<not> outlier_at ?s1 0 3000 3000" unfolding out by (simp add: nth_append amplitude_values)
  have none: "\<forall>k. nat (0 + 3000) \<le> k \<and> k < 3001 \<longrightarrow> \<not> outlier_at ?s1 0 3000 k"
  proof (intro allI impI)
    fix k :: nat assume "nat (0 + 3000) \<le> k \<and> k < 3001"
    then have "k = 3000" by simp
    with n3000 show "\<not> outlier_at ?s1 0 3000 k" by simp
  qed
  have fill: "py_slice_fill ?s1 (int 3001) (min (int 3001 + (2 + 0) div 2) (int (length ?s1)))
      (word_of_int 700) = ?s2"
    using py_slice_fill_middle [of "?A @ [700]" "[0]" ?A "700"] by simp
  have n1: "(1::int) \<le> 3000" "(0::int) + 3000 < int (length ?s1)" "nat (0 + 3000) \<le> (3001::nat)"
    "3001 < length ?s1" by simp_all
  from scan_loop_mask [OF n1(1) order_refl n1(2,3,4) o none, of 2 0 "[]"]
  have step: "scan_loop 2 0 3000 0 ?s1 [] = scan_loop 2 0 3000 3002 ?s2 [(3001, 3002, 700)]"
    unfolding outlier_prefix_1000(2) [OF A] using fill by simp
  have "scan_loop 2 0 3000 3002 ?s2 [(3001, 3002, 700)] = Some (Inr (?s2, [(3001, 3002, 700)]))"
    by (rule scan_loop_stop) simp_all
  with step show "scanner ?s1 2 0 150 = Some (Inr (?s2, [(3001, 3002, 700)]))"
    by (simp add: scanner_def)
qed

section \<open>The properties on concrete runs\<close>

theorem scan_terminates_witness:
  "(0::int) \<le> 2 \<and> (0::int) \<le> 0 \<and> (1::int) \<le> 1
   \<and> length (replicate 20 (1000::sample) @ 4095 # replicate 20 1000 @ [4095]) < 2 ^ 61
   \<and> (2::int) + 0 < 2 ^ 63
   \<and> scanner (replicate 20 1000 @ 4095 # replicate 20 1000 @ [4095]) 2 0 1
        = Some (Inr (replicate 20 1000 @ 700 # replicate 20 1000 @ [700],
                     [(20, 21, 700), (41, 42, 700)]))
   \<and> (0::int) + 1 * 20
        < int (length (replicate 20 (1000::sample) @ 4095 # replicate 20 1000 @ [4095]))
   \<and> scan_body 2 0 (1 * 20) 0 (replicate 20 1000 @ 4095 # replicate 20 1000 @ [4095])
        = Inr (Some (replicate 20 1000 @ 700 # replicate 20 1000 @ [4095], (20, 21, 700)))
   \<and> (0::int) + 1 \<le> 21
   \<and> (21::int) \<le> int (length (replicate 20 (1000::sample) @ 4095 # replicate 20 1000 @ [4095]))
   \<and> length (replicate 20 (1000::sample) @ 700 # replicate 20 1000 @ [4095])
        = length (replicate 20 (1000::sample) @ 4095 # replicate 20 1000 @ [4095])"
proof -
  let ?X = "replicate 20 1000 @ 4095 # replicate 20 1000 @ [4095] :: sample list"
  let ?X1 = "replicate 20 1000 @ 700 # replicate 20 1000 @ [4095] :: sample list"
  have v: "(0::int) \<le> 2" "(0::int) \<le> 0" "(1::int) \<le> 1" "length ?X < 2 ^ 61"
    and B: "(2::int) + 0 < 2 ^ 63" by simp_all
  from scan_terminates [OF v, THEN conjunct2, THEN mp, OF B]
  have "\<forall>idx s s' reg. length s = length ?X \<and> 0 \<le> idx \<and> idx + 1 * 20 < int (length s)
          \<and> scan_body 2 0 (1 * 20) idx s = Inr (Some (s', reg))
        \<longrightarrow> idx + 1 \<le> fst (snd reg) \<and> fst (snd reg) \<le> int (length s) \<and> length s' = length s"
    by blast
  from this [rule_format, of ?X 0 ?X1 "(20, 21, 700)"] body_first_spike
  have "(0::int) + 1 \<le> 21 \<and> 21 \<le> int (length ?X) \<and> length ?X1 = length ?X" by simp
  with run_two_spikes body_first_spike v B show ?thesis by simp
qed

theorem interval_bounds_witness:
  "(0::int) \<le> 2 \<and> (0::int) \<le> 0 \<and> (1::int) \<le> 1
   \<and> length (replicate 20 (1000::sample) @ 4095 # replicate 20 1000 @ [4095]) < 2 ^ 61
   \<and> (2::int) + 0 < 2 ^ 63
   \<and> scanner (replicate 20 1000 @ 4095 # replicate 20 1000 @ [4095]) 2 0 1
        = Some (Inr (replicate 20 1000 @ 700 # replicate 20 1000 @ [700],
                     [(20, 21, 700), (41, 42, 700)]))
   \<and> (\<exists>samples' regions.
        scanner (replicate 20 1000 @ 4095 # replicate 20 1000 @ [4095]) 2 0 1
          = Some (Inr (samples', regions)))
   \<and> (1::int) * 20 \<le> 20 \<and> (20::int) \<le> 21
   \<and> (21::int) \<le> int (length (replicate 20 (1000::sample) @ 4095 # replicate 20 1000 @ [4095]))
   \<and> (1::int) * 20 \<le> 41 \<and> (41::int) \<le> 42
   \<and> (42::int) \<le> int (length (replicate 20 (1000::sample) @ 4095 # replicate 20 1000 @ [4095]))"
proof -
  let ?X = "replicate 20 1000 @ 4095 # replicate 20 1000 @ [4095] :: sample list"
  let ?Y = "replicate 20 1000 @ 700 # replicate 20 1000 @ [700] :: sample list"
  have v: "(0::int) \<le> 2" "(0::int) \<le> 0" "(1::int) \<le> 1" "length ?X < 2 ^ 61"
    by simp_all
  have B: "(2::int) + 0 < 2 ^ 63" by simp
  note ret = interval_bounds [OF v, THEN conjunct2, THEN mp, OF B]
  from interval_bounds [OF v, THEN conjunct1, rule_format, OF run_two_spikes]
  have "\<forall>(a, b, c) \<in> set [(20, 21, 700), (41, 42, 700) :: region].
          1 * 20 \<le> a \<and> a \<le> b \<and> b \<le> int (length ?X)" by blast
  then have "(1::int) * 20 \<le> 20 \<and> (20::int) \<le> 21 \<and> 21 \<le> int (length ?X)
      \<and> (1::int) * 20 \<le> 41 \<and> (41::int) \<le> 42 \<and> 42 \<le> int (length ?X)" by simp
  with run_two_spikes v B ret show ?thesis by simp
qed

theorem intervals_ordered_witness:
  "(0::int) \<le> 2 \<and> (0::int) \<le> 0 \<and> (1::int) \<le> 1
   \<and> length (replicate 20 (1000::sample) @ 4095 # replicate 20 1000 @ [4095]) < 2 ^ 61
   \<and> (2::int) + 0 < 2 ^ 63
   \<and> scanner (replicate 20 1000 @ 4095 # replicate 20 1000 @ [4095]) 2 0 1
        = Some (Inr (replicate 20 1000 @ 700 # replicate 20 1000 @ [700],
                     [(20, 21, 700), (41, 42, 700)]))
   \<and> (\<exists>samples' regions.
        scanner (replicate 20 1000 @ 4095 # replicate 20 1000 @ [4095]) 2 0 1
          = Some (Inr (samples', regions)))
   \<and> (0::nat) < 1 \<and> (1::nat) < length [(20, 21, 700), (41, 42, 700) :: region]
   \<and> fst (snd ([(20, 21, 700), (41, 42, 700) :: region] ! 0))
        \<le> fst ([(20, 21, 700), (41, 42, 700) :: region] ! 1)
   \<and> fst ([(20, 21, 700), (41, 42, 700) :: region] ! 0)
        < fst ([(20, 21, 700), (41, 42, 700) :: region] ! 1)"
proof -
  let ?X = "replicate 20 1000 @ 4095 # replicate 20 1000 @ [4095] :: sample list"
  let ?regs = "[(20, 21, 700), (41, 42, 700)] :: region list"
  have v: "(0::int) \<le> 2" "(0::int) \<le> 0" "(1::int) \<le> 1" "length ?X < 2 ^ 61"
    by simp_all
  have ij: "(0::nat) < 1 \<and> (1::nat) < length ?regs" by simp
  have B: "(2::int) + 0 < 2 ^ 63" by simp
  note ret = intervals_ordered [OF v, THEN conjunct2, THEN mp, OF B]
  from intervals_ordered [OF v, THEN conjunct1, rule_format, OF run_two_spikes ij]
  have "fst (snd (?regs ! 0)) \<le> fst (?regs ! 1) \<and> fst (?regs ! 0) < fst (?regs ! 1)"
    by blast
  with run_two_spikes v ij B ret show ?thesis by simp
qed

theorem mask_postcondition_witness:
  "(0::int) \<le> 2 \<and> (0::int) \<le> 0 \<and> (1::int) \<le> 1
   \<and> length (replicate 20 (1000::sample) @ 4095 # replicate 20 1000 @ [4095]) < 2 ^ 61
   \<and> (2::int) + 0 < 2 ^ 63
   \<and> scanner (replicate 20 1000 @ 4095 # replicate 20 1000 @ [4095]) 2 0 1
        = Some (Inr (replicate 20 1000 @ 700 # replicate 20 1000 @ [700],
                     [(20, 21, 700), (41, 42, 700)]))
   \<and> (\<exists>samples' regions.
        scanner (replicate 20 1000 @ 4095 # replicate 20 1000 @ [4095]) 2 0 1
          = Some (Inr (samples', regions)))
   \<and> uint (amplitude ((replicate 20 1000 @ 700 # replicate 20 1000 @ [700]) ! 20)) = 700
   \<and> quality ((replicate 20 1000 @ 700 # replicate 20 1000 @ [700]) ! 20) = 0
   \<and> uint (amplitude ((replicate 20 1000 @ 700 # replicate 20 1000 @ [700]) ! 41)) = 700
   \<and> quality ((replicate 20 1000 @ 700 # replicate 20 1000 @ [700]) ! 41) = 0
   \<and> replacement_of (Min (set (baseline_window
         (replicate 20 1000 @ 700 # replicate 20 1000 @ [700]) 21 (1 * 20)))) = 700
   \<and> (700::int) \<le> \<lfloor>7 / 10 * real (unat (Min (set (baseline_window
         (replicate 20 1000 @ 700 # replicate 20 1000 @ [700]) 21 (1 * 20)))))\<rfloor>
   \<and> length (replicate 20 (1001::sample) @ [0]) < 2 ^ 61
   \<and> scanner (replicate 20 1001 @ [0]) 2 0 1
        = Some (Inr (replicate 20 1001 @ [700], [(20, 21, 700)]))
   \<and> \<not> 10 dvd unat (Min (set (baseline_window (replicate 20 1001 @ [700]) 0 (1 * 20))))
   \<and> (700::int) = \<lfloor>7 / 10 * real (unat (Min (set (baseline_window
         (replicate 20 1001 @ [700]) 0 (1 * 20)))))\<rfloor>"
proof -
  let ?X = "replicate 20 1000 @ 4095 # replicate 20 1000 @ [4095] :: sample list"
  let ?Y = "replicate 20 1000 @ 700 # replicate 20 1000 @ [700] :: sample list"
  let ?regs = "[(20, 21, 700), (41, 42, 700)] :: region list"
  have v: "(0::int) \<le> 2" "(0::int) \<le> 0" "(1::int) \<le> 1" "length ?X < 2 ^ 61"
    by simp_all
  have B: "(2::int) + 0 < 2 ^ 63" by simp
  note ret = mask_postcondition [OF v, THEN conjunct2, THEN mp, OF B]
  note all = mask_postcondition [OF v, THEN conjunct1, rule_format, OF run_two_spikes]
  have j: "(0::nat) < length ?regs" "(1::nat) < length ?regs" by simp_all
  from all [OF j(1)] have a: "uint (amplitude (?Y ! 20)) = 700 \<and> quality (?Y ! 20) = 0"
    by (simp add: baseline_start_def)
  from all [OF j(2)] have b: "uint (amplitude (?Y ! 41)) = 700 \<and> quality (?Y ! 41) = 0"
    and c: "replacement_of (Min (set (baseline_window ?Y 21 (1 * 20)))) = 700"
    and d: "(700::int) \<le> \<lfloor>7 / 10 * real (unat (Min (set (baseline_window ?Y 21 (1 * 20)))))\<rfloor>"
    by (simp_all add: baseline_start_def)
  let ?Z = "replicate 20 1001 @ [700] :: sample list"
  have w: "length (replicate 20 (1001::sample) @ [0]) < 2 ^ 61" by simp
  have "baseline_window ?Z 0 20 = map amplitude (replicate 20 1001)"
    using baseline_window_prefix [of "replicate 20 1001" "[700]"] by simp
  then have m: "Min (set (baseline_window ?Z 0 (1 * 20))) = 1001"
    by (simp add: amplitude_1001)
  then have nd: "\<not> 10 dvd unat (Min (set (baseline_window ?Z 0 (1 * 20))))" by simp
  have k: "(0::nat) < length [(20, 21, 700) :: region]" by simp
  from mask_postcondition [OF v(1-3) w, THEN conjunct1, rule_format, OF run_min_1001 k]
  have "\<not> 10 dvd unat (Min (set (baseline_window ?Z 0 (1 * 20))))
      \<longrightarrow> (700::int) = \<lfloor>7 / 10 * real (unat (Min (set (baseline_window ?Z 0 (1 * 20)))))\<rfloor>"
    by (simp add: baseline_start_def)
  with nd have e: "(700::int) = \<lfloor>7 / 10 * real (unat (Min (set (baseline_window ?Z 0 (1 * 20)))))\<rfloor>"
    by (rule rev_mp)
  from a b c d e nd w run_two_spikes run_min_1001 v B ret show ?thesis by simp
qed

theorem frame_property_witness:
  "(0::int) \<le> 2 \<and> (0::int) \<le> 0 \<and> (1::int) \<le> 1
   \<and> length (0 # 0 # concat (replicate 20 [0xE8, 0x03]) @ [0xFF, 0x0F, 0x00, 0x00 :: 8 word])
        < 2 ^ 62
   \<and> (2::int) + 0 < 2 ^ 63
   \<and> decode (0 # 0 # concat (replicate 20 [0xE8, 0x03]) @ [0xFF, 0x0F, 0x00, 0x00]) 2
        = Inr (replicate 20 1000 @ [4095, 0])
   \<and> (\<exists>samples' regions.
        process_file (0 # 0 # concat (replicate 20 [0xE8, 0x03]) @ [0xFF, 0x0F, 0x00, 0x00]) 2 0 1
          = Some (Inr (samples', regions)))
   \<and> process_file (0 # 0 # concat (replicate 20 [0xE8, 0x03]) @ [0xFF, 0x0F, 0x00, 0x00]) 2 0 1
        = Some (Inr (replicate 20 1000 @ [700, 0], [(20, 21, 700)]))
   \<and> (replicate 20 1000 @ [700, 0 :: sample]) ! 21 = (replicate 20 1000 @ [4095, 0]) ! 21
   \<and> (replicate 20 1000 @ [700, 0 :: sample]) ! 0 = (replicate 20 1000 @ [4095, 0]) ! 0"
proof -
  let ?data = "0 # 0 # concat (replicate 20 [0xE8, 0x03]) @ [0xFF, 0x0F, 0x00, 0x00] :: 8 word list"
  have p: "process_file ?data 2 0 1 = Some (Inr (replicate 20 1000 @ [700, 0], [(20, 21, 700)]))"
    by (simp add: process_file_def decode_spike_zero run_spike_zero)
  have v: "(0::int) \<le> 2" "(0::int) \<le> 0" "(1::int) \<le> 1" "length ?data < 2 ^ 62"
    by (simp_all add: length_concat sum_list_replicate)
  from frame_property [OF v]
  obtain samples where s: "decode ?data 2 = Inr samples"
    and f: "\<forall>samples' regions. process_file ?data 2 0 1 = Some (Inr (samples', regions))
               \<longrightarrow> length samples' = length samples
                 \<and> (\<forall>k<length samples.
                       (\<forall>(a, b, c) \<in> set regions. \<not> (a \<le> int k \<and> int k < b))
                       \<longrightarrow> samples' ! k = samples ! k)"
    and t: "2 + 0 < (2::int) ^ 63 \<longrightarrow>
              (\<exists>samples' regions. process_file ?data 2 0 1 = Some (Inr (samples', regions)))"
    by blast
  have B: "(2::int) + 0 < 2 ^ 63" by simp
  note ret = t [THEN mp, OF B]
  from s decode_spike_zero have eq: "samples = replicate 20 1000 @ [4095, 0]" by simp
  from f [rule_format, OF p]
  have "\<forall>k<length (replicate 20 1000 @ [4095, 0 :: sample]).
      (\<forall>(a, b, c) \<in> set [(20, 21, 700) :: region]. \<not> (a \<le> int k \<and> int k < b))
      \<longrightarrow> (replicate 20 1000 @ [700, 0 :: sample]) ! k = (replicate 20 1000 @ [4095, 0]) ! k"
    unfolding eq by blast
  from this [rule_format, of 21] this [rule_format, of 0] decode_spike_zero p v B ret
  show ?thesis by simp
qed

theorem outlier_detection_witness:
  "(1::int) \<le> 1 \<and> (0::int) \<le> 0
   \<and> (0::int) + 1 * 20 < int (length (replicate 20 (1000::sample) @ 4095 # replicate 20 1000 @ [4095]))
   \<and> length (replicate 20 (1000::sample) @ 4095 # replicate 20 1000 @ [4095]) < 2 ^ 61
   \<and> outlier_at (replicate 20 1000 @ 4095 # replicate 20 1000 @ [4095]) 0 (1 * 20) 20
   \<and> 13 / 10 * real (unat (Max (set (baseline_window
         (replicate 20 1000 @ 4095 # replicate 20 1000 @ [4095]) 0 (1 * 20)))))
       < real (unat (amplitude ((replicate 20 1000 @ 4095 # replicate 20 1000 @ [4095]) ! 20)))
   \<and> fits_int64 ((2 + 0) div 2)
   \<and> (\<exists>samples' end_idx replacement_value.
        scan_body 2 0 (1 * 20) 0 (replicate 20 1000 @ 4095 # replicate 20 1000 @ [4095])
          = Inr (Some (samples', (int 20, end_idx, replacement_value))))
   \<and> \<not> fits_int64 ((0 + 2 ^ 64) div 2)
   \<and> scan_body 0 (2 ^ 64) (1 * 20) 0 (replicate 20 1000 @ 4095 # replicate 20 1000 @ [4095])
        = Inl OverflowError
   \<and> scan_body 2 0 (1 * 20) 0 (replicate 20 1000 @ [700, 700]) = Inr None
   \<and> scan_loop 2 0 (1 * 20) 0 (replicate 20 1000 @ [700, 700]) []
        = Some (Inr (replicate 20 1000 @ [700, 700], []))"
proof -
  let ?X = "replicate 20 1000 @ 4095 # replicate 20 1000 @ [4095] :: sample list"
  let ?Q = "replicate 20 1000 @ [700, 700] :: sample list"
  have X: "outlier_at ?X 0 (1 * 20) 20" using outlier_first_spike by simp
  have none: "\<forall>k. nat (0 + 1 * 20) \<le> k \<and> k < 20 \<longrightarrow> \<not> outlier_at ?X 0 (1 * 20) k" by auto
  have pre: "(0::int) + 1 * 20 < int (length ?X)" "(0::int) + 1 * 20 < int (length ?Q)"
    "length ?X < 2 ^ 61" "length ?Q < 2 ^ 61" by simp_all
  note d1 = outlier_detection [OF order_refl order_refl pre(1,3), of 2 0 "[]"]
  note d2 = outlier_detection [OF order_refl order_refl pre(2,4), of 2 0 "[]"]
  note d3 = outlier_detection [OF order_refl order_refl pre(1,3), of 0 "2 ^ 64" "[]"]
  have prem: "nat (0 + 1 * 20) \<le> (20::nat) \<and> 20 < length ?X \<and> outlier_at ?X 0 (1 * 20) 20
      \<and> (\<forall>k. nat (0 + 1 * 20) \<le> k \<and> k < 20 \<longrightarrow> \<not> outlier_at ?X 0 (1 * 20) k)"
    using X none by simp
  have f1: "fits_int64 ((2 + 0) div 2)" and f3: "\<not> fits_int64 ((0 + 2 ^ 64) div 2)"
    by (simp_all add: fits_int64_def)
  from d1 [THEN conjunct2, THEN conjunct2, rule_format, OF prem] f1
  have a: "\<exists>samples' end_idx replacement_value.
        scan_body 2 0 (1 * 20) 0 ?X = Inr (Some (samples', (int 20, end_idx, replacement_value)))"
    by (simp only: if_True)
  from d3 [THEN conjunct2, THEN conjunct2, rule_format, OF prem] f3
  have a3: "scan_body 0 (2 ^ 64) (1 * 20) 0 ?X = Inl OverflowError"
    by (simp only: if_False)
  have W0: "Max (set (baseline_window ?X 0 (1 * 20))) = 1000"
    using baseline_window_prefix [of "replicate 20 1000" "[4095] @ replicate 20 1000 @ [4095]"]
    by (simp add: amplitude_values)
  have b: "13 / 10 * real (unat (Max (set (baseline_window ?X 0 (1 * 20)))))
       < real (unat (amplitude (?X ! 20)))"
    unfolding W0 by (simp add: nth_append amplitude_values)
  have quiet: "\<forall>k. nat (0 + 1 * 20) \<le> k \<and> k < length ?Q \<longrightarrow> \<not> outlier_at ?Q 0 (1 * 20) k"
    using quiet_after_masking by simp
  from d2 [THEN conjunct2, THEN conjunct1, THEN mp, OF quiet]
  have c: "scan_body 2 0 (1 * 20) 0 ?Q = Inr None
      \<and> scan_loop 2 0 (1 * 20) 0 ?Q [] = Some (Inr (?Q, []))" .
  from X a a3 b c pre(1,3) f1 f3 show ?thesis by simp
qed

end
